theory Spec2Isabelle
  imports Complex_Main "HOL-Library.Word" "HOL-Library.Numeral_Type"
begin

unbundle bit_operations_syntax

section \<open>Blocks and the SSE2 operations used on them (crypto/block.hpp)\<close>

text \<open>
  A \<^verbatim>\<open>block\<close> is an \<^verbatim>\<open>__m128i\<close>: a 128-bit word. Its sixteen bytes in memory
  are the little-endian bytes of that word, and its two 64-bit lanes are the low and the
  high half.
\<close>

type_synonym byte = "8 word"
type_synonym block = "128 word"

text \<open>
  What the source leaves undefined, or stops at, in the routines on buffers: an \<^verbatim>\<open>int\<close>
  outside the 32-bit range, an index outside a buffer, a failed \<^verbatim>\<open>assert\<close>.
\<close>

datatype ub = Signed_overflow | Out_of_bounds | Assertion_failed

definition MakeBlock :: "64 word \<Rightarrow> 64 word \<Rightarrow> block" where
  "MakeBlock high low = word_cat high low"

definition zero_block :: block where
  "zero_block = MakeBlock 0 0"

definition all_one_block :: block where
  "all_one_block = MakeBlock 0xFFFFFFFFFFFFFFFF 0xFFFFFFFFFFFFFFFF"

definition lane_lo :: "block \<Rightarrow> 64 word" where
  "lane_lo x = ucast x"

definition lane_hi :: "block \<Rightarrow> 64 word" where
  "lane_hi x = ucast (drop_bit 64 x)"

text \<open>\<^verbatim>\<open>_mm_slli_epi64\<close>: each 64-bit lane shifted left on its own.\<close>

definition mm_slli_epi64 :: "block \<Rightarrow> nat \<Rightarrow> block" where
  "mm_slli_epi64 a n = word_cat (push_bit n (lane_hi a)) (push_bit n (lane_lo a))"

text \<open>\<^verbatim>\<open>_mm_srli_si128\<close>, \<^verbatim>\<open>_mm_slli_si128\<close>: the whole register shifted by bytes.\<close>

definition mm_srli_si128 :: "block \<Rightarrow> nat \<Rightarrow> block" where
  "mm_srli_si128 a n = drop_bit (8 * n) a"

definition mm_slli_si128 :: "block \<Rightarrow> nat \<Rightarrow> block" where
  "mm_slli_si128 a n = push_bit (8 * n) a"

definition mm_or_si128 :: "block \<Rightarrow> block \<Rightarrow> block" where
  "mm_or_si128 a b = a OR b"

definition mm_andnot_si128 :: "block \<Rightarrow> block \<Rightarrow> block" where
  "mm_andnot_si128 a b = (NOT a) AND b"

definition Calc2ToTheN :: "int \<Rightarrow> block" where
  "Calc2ToTheN N =
     (let onesLowHigh = mm_slli_epi64 all_one_block 63;
          single_one_block = (if N < 64 then mm_srli_si128 onesLowHigh (64 div 8)
                              else mm_slli_si128 onesLowHigh (64 div 8))
      in mm_slli_epi64 single_one_block (nat (N AND 63)))"

definition SetBitN :: "block \<Rightarrow> int \<Rightarrow> block" where
  "SetBitN v N = mm_or_si128 v (Calc2ToTheN N)"

definition ClearBitN :: "block \<Rightarrow> int \<Rightarrow> block" where
  "ClearBitN v N = mm_andnot_si128 v (Calc2ToTheN N)"

text \<open>
  \<^verbatim>\<open>Block::XOR\<close> and \<^verbatim>\<open>Block::FixXOR\<close>. \<^verbatim>\<open>XOR\<close> only prints a message when the sizes
  differ and then reads \<^verbatim>\<open>vec_b[i]\<close> for every index of \<^verbatim>\<open>vec_a\<close>: reading past the
  end of \<^verbatim>\<open>vec_b\<close> is a fault.
\<close>

definition XOR_blocks :: "block list \<Rightarrow> block list \<Rightarrow> ub + block list" where
  "XOR_blocks vec_a vec_b =
     (if length vec_b < length vec_a then Inl Out_of_bounds
      else Inr (map (\<lambda>i. vec_a ! i XOR vec_b ! i) [0..<length vec_a]))"

definition FixXOR :: "block list \<Rightarrow> block \<Rightarrow> block list" where
  "FixXOR vec_a b = map (\<lambda>i. vec_a ! i XOR b) [0..<length vec_a]"

text \<open>\<^verbatim>\<open>Block::Compare\<close> on two blocks: the XOR is tested for zero.\<close>

definition Compare :: "block \<Rightarrow> block \<Rightarrow> bool" where
  "Compare a b = (a XOR b = 0)"

subsection \<open>Blocks as bytes in memory\<close>

definition block_bytes :: "block \<Rightarrow> byte list" where
  "block_bytes b = map (\<lambda>k. ucast (drop_bit (8 * k) b)) [0..<16]"

definition bytes_block :: "byte list \<Rightarrow> block" where
  "bytes_block bs = word_of_int (horner_sum uint (2 ^ 8) (take 16 bs))"

definition blocks_bytes :: "block list \<Rightarrow> byte list" where
  "blocks_bytes bs = concat (map block_bytes bs)"

definition bytes_blocks :: "byte list \<Rightarrow> block list" where
  "bytes_blocks bs = map (\<lambda>i. bytes_block (take 16 (drop (16 * i) bs))) [0..<length bs div 16]"

text \<open>
  \<^verbatim>\<open>memcpy(dst, src, n)\<close> on two buffers given with their sizes: the first \<open>n\<close> bytes
  of \<open>dst\<close> are replaced. Copying more than either buffer holds is \<open>None\<close>.
\<close>

definition memcpy :: "byte list \<Rightarrow> byte list \<Rightarrow> nat \<Rightarrow> byte list option" where
  "memcpy dst src n =
     (if n \<le> length dst \<and> n \<le> length src then Some (take n src @ drop n dst) else None)"

subsection \<open>Sparse and dense bits\<close>

text \<open>
  \<^verbatim>\<open>FromSparseBits\<close>: block \<open>i\<close> is set to \<^verbatim>\<open>zero_block\<close>, and for every byte of the
  input that is 1 the source calls \<^verbatim>\<open>SetBitN(block_data[i], j);\<close> as a statement.
  \<^verbatim>\<open>SetBitN\<close> takes the block by value and returns the new block; the returned value is
  not stored.
\<close>

definition FromSparseBits_step :: "byte list \<Rightarrow> nat \<Rightarrow> nat \<Rightarrow> block \<Rightarrow> block" where
  "FromSparseBits_step bool_data i j blk =
     (if bool_data ! (128 * i + j) = 1
      then (let discarded = SetBitN blk (int j) in blk)
      else blk)"

definition FromSparseBits :: "byte list \<Rightarrow> nat \<Rightarrow> nat \<Rightarrow> block list option" where
  "FromSparseBits bool_data BIT_LEN BLOCK_LEN =
     (if length bool_data < 128 * BLOCK_LEN then None
      else Some (map (\<lambda>i. fold (FromSparseBits_step bool_data i) [0..<128] zero_block)
                  [0..<BLOCK_LEN]))"

definition FromDenseBits :: "byte list \<Rightarrow> nat \<Rightarrow> block list \<Rightarrow> block list option" where
  "FromDenseBits bool_data BIT_LEN block_data =
     map_option bytes_blocks (memcpy (blocks_bytes block_data) bool_data (BIT_LEN div 8))"

definition ToDenseBits :: "block list \<Rightarrow> byte list \<Rightarrow> nat \<Rightarrow> byte list option" where
  "ToDenseBits block_data bool_data BIT_LEN =
     memcpy bool_data (blocks_bytes block_data) (BIT_LEN div 8)"

section \<open>Bloom filter (filter/bloom\_filter.hpp)\<close>

definition bit_mask :: "byte list" where
  "bit_mask = [0x01, 0x02, 0x04, 0x08, 0x10, 0x20, 0x40, 0x80]"

definition predefined_salt :: "32 word list" where
  "predefined_salt =
    [0xAAAAAAAA, 0x55555555, 0x33333333, 0xCCCCCCCC, 0x66666666, 0x99999999,
     0xB5B5B5B5, 0x4B4B4B4B, 0xAA55AA55, 0x55335533, 0x33CC33CC, 0xCC66CC66,
     0x66996699, 0x99B599B5, 0xB54BB54B, 0x4BAA4BAA, 0xAA33AA33, 0x55CC55CC,
     0x33663366, 0xCC99CC99, 0x66B566B5, 0x994B994B, 0xB5AAB5AA, 0xAAAAAA33,
     0x555555CC, 0x33333366, 0xCCCCCC99, 0x666666B5, 0x9999994B, 0xB5B5B5AA,
     0xFFFFFFFF, 0xFFFF0000, 0xB823D5EB, 0xC1191CDF, 0xF623AEB3, 0xDB58499F,
     0xC8D42E70, 0xB173F616, 0xA91A5967, 0xDA427D63, 0xB1E8A2EA, 0xF6C0D155,
     0x4909FEA3, 0xA68CC6A7, 0xC395E782, 0xA26057EB, 0x0CD5DA28, 0x467C5492,
     0xF15E6982, 0x61C6FAD3, 0x9615E352, 0x6E9E355A, 0x689B563E, 0x0C9831A8,
     0x6753C18B, 0xA622689B, 0x8CA63C47, 0x42CC2884, 0x8E89919B, 0x6EDBD7D3,
     0x15B6796C, 0x1D6FDFE4, 0x63FF9092, 0xE7401432, 0xEFFE9412, 0xAEAEDF79,
     0x9F245A31, 0x83C136FC, 0xC3DA4A8C, 0xA5112C8C, 0x5271F491, 0x9A948DAB,
     0xCEE59A8D, 0xB5F525AB, 0x59D13217, 0x24E7C331, 0x697C2103, 0x84B0A460,
     0x86156DA9, 0xAEF2AC68, 0x23243DA5, 0x3F649643, 0x5FA495A8, 0x67710DF8,
     0x9A6C499E, 0xDCFB0227, 0x46A43433, 0x1832B07A, 0xC46AFF3C, 0xB9C8FFF0,
     0xC9500467, 0x34431BDF, 0xB652432B, 0xE367F12B, 0x427F4C1B, 0x224C006E,
     0x2E7E5A89, 0x96F99AA5, 0x0BEB452A, 0x2FD87C39, 0x74B2E1FB, 0x222EFD24,
     0xF357F60C, 0x440FCB1E, 0x8BBE030F, 0x6704DC29, 0x1144D12F, 0x948B1355,
     0x6D8FD7E9, 0x1C11A014, 0xADD1592F, 0xFB3C712E, 0xFC77642F, 0xF9C4CE8C,
     0x31312FB9, 0x08B0DD79, 0x318FA6E7, 0xC040D23D, 0xC0589AA7, 0x0CA5C075,
     0xF874B172, 0x0CF914D5, 0x784D3280, 0x4E8CFEBC, 0xC569F575, 0xCDB2A091,
     0x2CC016B4, 0x5C5F4421]"

text \<open>
  \<^verbatim>\<open>GenUniqueSaltVector\<close>. Up to 128 hash functions the salts are the first
  \<open>hash_num\<close> table entries, mixed in place and in index order with the seed (so a later
  entry may read an earlier one that has already been mixed). Above 128 the source
  appends products of \<^verbatim>\<open>rand()\<close> after \<^verbatim>\<open>srand(random_seed)\<close>; the C library's
  generator is not part of the repository, so the salts that loop appends are the
  parameter \<open>rand_salts\<close>, a function of the count and the seed.
\<close>

definition mix_salt :: "32 word \<Rightarrow> nat \<Rightarrow> 32 word list \<Rightarrow> 32 word list" where
  "mix_salt random_seed i v = v[i := v ! i * v ! ((i + 3) mod length v) + random_seed]"

definition GenUniqueSaltVector ::
  "(nat \<Rightarrow> 32 word \<Rightarrow> 32 word list) \<Rightarrow> nat \<Rightarrow> 32 word \<Rightarrow> 32 word list" where
  "GenUniqueSaltVector rand_salts hash_num random_seed =
     (if hash_num \<le> 128
      then fold (mix_salt random_seed) [0..<hash_num] (take hash_num predefined_salt)
      else predefined_salt @ rand_salts (hash_num - 128) random_seed)"

record BloomFilter =
  hash_num :: "32 word"
  vec_salt :: "32 word list"
  table_size :: "32 word"
  bit_table :: "byte list"
  projected_element_num :: "64 word"
  random_seed :: "32 word"
  inserted_element_num :: "64 word"

text \<open>
  The constructor \<^verbatim>\<open>BloomFilter(projected_element_num, desired_false_positive_probability)\<close>
  (lines 89 to 97). Its two numbers come from \<^verbatim>\<open>double\<close> arithmetic, read here over the
  reals; the conversion of a value that does not fit the target type has no defined
  result (\<open>None\<close>). The member \<^verbatim>\<open>projected_element_num\<close> is not assigned, the parameter of
  the same name hides it: it keeps whatever it held, \<open>unassigned\<close>. The table gets
  \<^verbatim>\<open>table_size/8\<close> bytes, rounded down.
\<close>

definition BloomFilter_new ::
  "(nat \<Rightarrow> 32 word \<Rightarrow> 32 word list) \<Rightarrow> 64 word \<Rightarrow> nat \<Rightarrow> real \<Rightarrow> BloomFilter option" where
  "BloomFilter_new rand_salts unassigned element_num desired_false_positive_probability =
     (let h = - log 2 desired_false_positive_probability;
          t = real element_num * (- 1.44 * log 2 desired_false_positive_probability)
      in if desired_false_positive_probability \<le> 0 \<or> h \<le> - 1 \<or> 2 ^ 64 \<le> h
            \<or> t \<le> - 1 \<or> 2 ^ 32 \<le> t
         then None
         else
           let hash_num' = (word_of_nat (nat \<lfloor>h\<rfloor>) :: 32 word);
               random_seed' = (ucast ((0xA5A5A5A55A5A5A5A :: 64 word) * 0xA5A5A5A5 + 1) :: 32 word);
               vec_salt' = GenUniqueSaltVector rand_salts (unat hash_num') random_seed';
               table_size' = (word_of_nat (nat \<lfloor>t\<rfloor>) :: 32 word)
           in Some \<lparr>hash_num = hash_num', vec_salt = vec_salt', table_size = table_size',
                     bit_table = replicate (unat table_size' div 8) 0,
                     projected_element_num = unassigned, random_seed = random_seed',
                     inserted_element_num = 0\<rparr>)"

text \<open>
  \<^verbatim>\<open>FastKeyedHash\<close> is \<^verbatim>\<open>LiteMurmurHash\<close> of utility/murmurhash3.hpp, which is not
  among the sources: it is the parameter \<open>H\<close>, from a salt and the input bytes to a
  \<^verbatim>\<open>uint32_t\<close>.

  One round of the loop of \<^verbatim>\<open>PlainInsert\<close>. The source has no checks; what C++ leaves
  undefined is \<open>None\<close> here: \<^verbatim>\<open>vec_salt[i]\<close> past the end of the vector, the remainder
  by a \<^verbatim>\<open>table_size\<close> of zero, and \<^verbatim>\<open>bit_table[bit_index >> 3]\<close> past the end of the
  table.
\<close>

definition PlainInsert_step ::
  "(32 word \<Rightarrow> byte list \<Rightarrow> 32 word) \<Rightarrow> BloomFilter \<Rightarrow> byte list \<Rightarrow> nat \<Rightarrow> byte list
     \<Rightarrow> byte list option" where
  "PlainInsert_step H bf input i tbl =
     (if length (vec_salt bf) \<le> i \<or> table_size bf = 0 then None
      else
        let bit_index = unat (H (vec_salt bf ! i) input mod table_size bf) in
        if length tbl \<le> drop_bit 3 bit_index then None
        else Some (tbl[drop_bit 3 bit_index :=
                        tbl ! (drop_bit 3 bit_index) OR bit_mask ! (bit_index AND 0x07)]))"

fun PlainInsert_loop ::
  "(32 word \<Rightarrow> byte list \<Rightarrow> 32 word) \<Rightarrow> BloomFilter \<Rightarrow> byte list \<Rightarrow> nat list \<Rightarrow> byte list
     \<Rightarrow> byte list option" where
  "PlainInsert_loop H bf input [] tbl = Some tbl"
| "PlainInsert_loop H bf input (i # rest) tbl =
     (case PlainInsert_step H bf input i tbl of
        None \<Rightarrow> None
      | Some tbl' \<Rightarrow> PlainInsert_loop H bf input rest tbl')"

definition PlainInsert ::
  "(32 word \<Rightarrow> byte list \<Rightarrow> 32 word) \<Rightarrow> BloomFilter \<Rightarrow> byte list \<Rightarrow> BloomFilter option" where
  "PlainInsert H bf input =
     (case PlainInsert_loop H bf input [0..<unat (hash_num bf)] (bit_table bf) of
        None \<Rightarrow> None
      | Some tbl \<Rightarrow>
          Some (bf\<lparr>bit_table := tbl, inserted_element_num := inserted_element_num bf + 1\<rparr>))"

text \<open>
  \<^verbatim>\<open>PlainContain\<close> runs over \<^verbatim>\<open>vec_salt.size()\<close> (not \<^verbatim>\<open>hash_num\<close>) and returns false
  at the first bit that is not set.
\<close>

fun PlainContain_loop ::
  "(32 word \<Rightarrow> byte list \<Rightarrow> 32 word) \<Rightarrow> BloomFilter \<Rightarrow> byte list \<Rightarrow> nat list \<Rightarrow> bool option" where
  "PlainContain_loop H bf input [] = Some True"
| "PlainContain_loop H bf input (i # rest) =
     (if table_size bf = 0 then None
      else
        let bit_index = unat (H (vec_salt bf ! i) input mod table_size bf);
            local_bit_index = bit_index AND 0x07
        in
          if length (bit_table bf) \<le> drop_bit 3 bit_index then None
          else if bit_table bf ! (drop_bit 3 bit_index) AND bit_mask ! local_bit_index
                    \<noteq> bit_mask ! local_bit_index
          then Some False
          else PlainContain_loop H bf input rest)"

definition PlainContain ::
  "(32 word \<Rightarrow> byte list \<Rightarrow> 32 word) \<Rightarrow> BloomFilter \<Rightarrow> byte list \<Rightarrow> bool option" where
  "PlainContain H bf input = PlainContain_loop H bf input [0..<length (vec_salt bf)]"

text \<open>A sequence of insertions, stopping at the first one that is undefined.\<close>

fun insert_all ::
  "(32 word \<Rightarrow> byte list \<Rightarrow> 32 word) \<Rightarrow> BloomFilter \<Rightarrow> byte list list \<Rightarrow> BloomFilter option" where
  "insert_all H bf [] = Some bf"
| "insert_all H bf (x # xs) =
     (case PlainInsert H bf x of None \<Rightarrow> None | Some bf' \<Rightarrow> insert_all H bf' xs)"

subsection \<open>Persistence to a file\<close>

definition le32 :: "32 word \<Rightarrow> byte list" where
  "le32 w = map (\<lambda>k. ucast (drop_bit (8 * k) w)) [0..<4]"

definition word_le32 :: "byte list \<Rightarrow> 32 word" where
  "word_le32 bs = word_of_int (horner_sum uint (2 ^ 8) (take 4 bs))"

text \<open>
  The file-based \<^verbatim>\<open>WriteObject\<close> writes \<^bold>\<open>8\<close> bytes from the address of each of the
  three \<^verbatim>\<open>uint32_t\<close> fields: the field's four bytes and the four bytes that follow it
  in the object. What those hold is not fixed by the source, so they are the
  parameters \<open>after_hash_num\<close>, \<open>after_random_seed\<close> and \<open>after_table_size\<close>. Then it
  writes \<^verbatim>\<open>table_size/8\<close> bytes of the table (\<open>None\<close> when the table is shorter). The
  result is the content of the file; the failure to open the file is not modelled.
\<close>

definition WriteObject_file ::
  "BloomFilter \<Rightarrow> 32 word \<Rightarrow> 32 word \<Rightarrow> 32 word \<Rightarrow> byte list option" where
  "WriteObject_file bf after_hash_num after_random_seed after_table_size =
     (if length (bit_table bf) < unat (table_size bf) div 8 then None
      else Some (le32 (hash_num bf) @ le32 after_hash_num
               @ le32 (random_seed bf) @ le32 after_random_seed
               @ le32 (table_size bf) @ le32 after_table_size
               @ take (unat (table_size bf) div 8) (bit_table bf)))"

text \<open>
  An input file stream: the bytes not yet read, and whether the stream is still good.
  \<^verbatim>\<open>fin.read(dst, n)\<close> on a good stream stores the next \<open>n\<close> bytes; when fewer are
  left it stores those, and the stream fails; a failed stream stores nothing.
\<close>

record ifstream =
  content :: "byte list"
  good :: bool

definition fin_read :: "ifstream \<Rightarrow> byte list \<Rightarrow> nat \<Rightarrow> byte list \<times> ifstream" where
  "fin_read fin dst n =
     (if \<not> good fin then (dst, fin)
      else if n \<le> length (content fin)
      then (take n (content fin) @ drop n dst, fin\<lparr>content := drop n (content fin)\<rparr>)
      else (content fin @ drop (length (content fin)) dst, \<lparr>content = [], good = False\<rparr>))"

text \<open>\<^verbatim>\<open>bit_table.resize(n, 0x00)\<close>: the vector is cut or filled with zeros.\<close>

definition resize :: "byte list \<Rightarrow> nat \<Rightarrow> byte list" where
  "resize v n = take n v @ replicate (n - length v) 0"

text \<open>
  The file-based \<^verbatim>\<open>ReadObject\<close> reads \<^verbatim>\<open>sizeof(uint32_t)\<close> = 4 bytes into each field,
  in the order \<^verbatim>\<open>hash_num\<close>, \<^verbatim>\<open>random_seed\<close>, \<^verbatim>\<open>table_size\<close>, rebuilds the salts after
  the second, and then reads the table. \<open>bf\<close> is the object before the call.
\<close>

definition ReadObject_file ::
  "(nat \<Rightarrow> 32 word \<Rightarrow> 32 word list) \<Rightarrow> BloomFilter \<Rightarrow> byte list \<Rightarrow> BloomFilter" where
  "ReadObject_file rand_salts bf file =
     (let fin0 = \<lparr>content = file, good = True\<rparr>;
          (b1, fin1) = fin_read fin0 (le32 (hash_num bf)) 4;
          hash_num' = word_le32 b1;
          (b2, fin2) = fin_read fin1 (le32 (random_seed bf)) 4;
          random_seed' = word_le32 b2;
          vec_salt' = GenUniqueSaltVector rand_salts (unat hash_num') random_seed';
          (b3, fin3) = fin_read fin2 (le32 (table_size bf)) 4;
          table_size' = word_le32 b3;
          tbl = resize (bit_table bf) (unat table_size' div 8);
          (tbl', fin4) = fin_read fin3 tbl (unat table_size' div 8)
      in bf\<lparr>hash_num := hash_num', vec_salt := vec_salt', table_size := table_size',
              bit_table := tbl', random_seed := random_seed'\<rparr>)"

text \<open>
  The buffer-based pair, for comparison: both sides use \<^verbatim>\<open>sizeof(uint32_t)\<close>.
  \<open>None\<close> when the table or the buffer is shorter than what is copied.
\<close>

definition WriteObject_buffer :: "BloomFilter \<Rightarrow> byte list \<Rightarrow> byte list option" where
  "WriteObject_buffer bf buffer =
     (let n = unat (table_size bf) div 8 in
      if length (bit_table bf) < n \<or> length buffer < 12 + n then None
      else Some (le32 (hash_num bf) @ le32 (random_seed bf) @ le32 (table_size bf)
               @ take n (bit_table bf) @ drop (12 + n) buffer))"

definition ReadObject_buffer ::
  "(nat \<Rightarrow> 32 word \<Rightarrow> 32 word list) \<Rightarrow> BloomFilter \<Rightarrow> byte list \<Rightarrow> BloomFilter option" where
  "ReadObject_buffer rand_salts bf buffer =
     (if length buffer < 12 then None
      else
        let hash_num' = word_le32 (take 4 buffer);
            random_seed' = word_le32 (take 4 (drop 4 buffer));
            vec_salt' = GenUniqueSaltVector rand_salts (unat hash_num') random_seed';
            table_size' = word_le32 (take 4 (drop 8 buffer));
            n = unat table_size' div 8
        in if length buffer < 12 + n then None
           else Some (bf\<lparr>hash_num := hash_num', vec_salt := vec_salt',
                         table_size := table_size',
                         bit_table := take n (drop 12 buffer), random_seed := random_seed'\<rparr>))"

subsection \<open>Vocabulary for the filter's properties\<close>

text \<open>Bit \<open>k\<close> of the table, and the bit index the \<open>i\<close>-th hash gives an input.\<close>

definition tbit :: "byte list \<Rightarrow> nat \<Rightarrow> bool" where
  "tbit tbl k \<longleftrightarrow> bit (tbl ! (k div 8)) (k mod 8)"

definition hidx ::
  "(32 word \<Rightarrow> byte list \<Rightarrow> 32 word) \<Rightarrow> BloomFilter \<Rightarrow> byte list \<Rightarrow> nat \<Rightarrow> nat" where
  "hidx H bf input i = unat (H (vec_salt bf ! i) input mod table_size bf)"

definition bf_ok :: "BloomFilter \<Rightarrow> bool" where
  "bf_ok bf \<longleftrightarrow> table_size bf \<noteq> 0 \<and> length (vec_salt bf) = unat (hash_num bf)
      \<and> unat (table_size bf) \<le> 8 * length (bit_table bf)"

section \<open>Two parties over an ideal channel\<close>

text \<open>
  Modelled from the spec: the network channel (netio/stream\_channel.hpp is not among the
  sources). Section 6.1 of the specification gives its contract: reliable, in-order,
  bidirectional delivery of blocks, of points and of vectors of byte strings, every
  error being fatal. A party is a process: it returns, stops with a fault, sends a
  message and goes on, or waits for the next message and goes on with it. The base
  oblivious transfer of the extension (mpc/ot/naor\_pinkas\_ot.hpp, not among the
  sources either) is kept as two more steps.
\<close>

type_synonym EC25519Point = "byte list"

datatype msg =
    Blocks "block list"
  | EC25519Points "EC25519Point list"
  | StringVector "byte list list"

datatype fault =
    Exit_failure
  | Channel_error
  | Undefined_behaviour

datatype 'r proc =
    Return 'r
  | Abort fault
  | Send_msg msg "'r proc"
  | Receive_msg "msg \<Rightarrow> 'r proc"
  | BaseOT_send "block list" "block list" "'r proc"
  | BaseOT_receive "byte list" "block list \<Rightarrow> 'r proc"

text \<open>
  The outcome of a joint run, with the messages in the order they were sent (\<open>True\<close>
  marks a message of the first party).
\<close>

datatype ('a, 'b) outcome =
    Finished 'a 'b "(bool \<times> msg) list"
  | Faulted fault "(bool \<times> msg) list"
  | Deadlock
  | Out_of_fuel

text \<open>
  Modelled from the spec: the contract of the base OT (sections 4.3 and 4.4): for
  every index the receiver of the base OT learns the key its selection byte chooses,
  \<open>K[i] = K\<^bsub>b[i]\<^esub>[i]\<close>.
\<close>

definition BaseOT_keys :: "block list \<Rightarrow> block list \<Rightarrow> byte list \<Rightarrow> block list" where
  "BaseOT_keys K0 K1 sel =
     map (\<lambda>i. if sel ! i = 0 then K0 ! i else K1 ! i) [0..<length sel]"

text \<open>
  The scheduler of the ideal channel. \<open>qa\<close> and \<open>qb\<close> are the messages on their way
  to the first and to the second party. The first party runs while it can; when it
  waits or has returned, the second party takes a step. A base OT happens when both
  parties are at it. The fuel bounds the number of steps.
\<close>

fun run_pair ::
  "nat \<Rightarrow> 'a proc \<Rightarrow> msg list \<Rightarrow> 'b proc \<Rightarrow> msg list \<Rightarrow> (bool \<times> msg) list \<Rightarrow> ('a, 'b) outcome"
and step_second ::
  "nat \<Rightarrow> 'a proc \<Rightarrow> msg list \<Rightarrow> 'b proc \<Rightarrow> msg list \<Rightarrow> (bool \<times> msg) list \<Rightarrow> ('a, 'b) outcome"
where
  "run_pair 0 a qa b qb tr = Out_of_fuel"
| "run_pair (Suc n) (Abort f) qa b qb tr = Faulted f tr"
| "run_pair (Suc n) (Send_msg m a') qa b qb tr = run_pair n a' qa b (qb @ [m]) (tr @ [(True, m)])"
| "run_pair (Suc n) (Receive_msg k) (m # qa) b qb tr = run_pair n (k m) qa b qb tr"
| "run_pair (Suc n) (Receive_msg k) [] b qb tr = step_second n (Receive_msg k) [] b qb tr"
| "run_pair (Suc n) (Return r) qa b qb tr = step_second n (Return r) qa b qb tr"
| "run_pair (Suc n) (BaseOT_send K0 K1 a') qa b qb tr =
     (case b of
        BaseOT_receive sel k \<Rightarrow> run_pair n a' qa (k (BaseOT_keys K0 K1 sel)) qb tr
      | _ \<Rightarrow> step_second n (BaseOT_send K0 K1 a') qa b qb tr)"
| "run_pair (Suc n) (BaseOT_receive sel k) qa b qb tr =
     (case b of
        BaseOT_send K0 K1 b' \<Rightarrow> run_pair n (k (BaseOT_keys K0 K1 sel)) qa b' qb tr
      | _ \<Rightarrow> step_second n (BaseOT_receive sel k) qa b qb tr)"
| "step_second n a qa (Abort f) qb tr = Faulted f tr"
| "step_second n a qa (Send_msg m b') qb tr = run_pair n a (qa @ [m]) b' qb (tr @ [(False, m)])"
| "step_second n a qa (Receive_msg k) (m # qb) tr = run_pair n a qa (k m) qb tr"
| "step_second n a qa (Receive_msg k) [] tr = Deadlock"
| "step_second n a qa (Return rb) qb tr =
     (case a of Return ra \<Rightarrow> Finished ra rb tr | _ \<Rightarrow> Deadlock)"
| "step_second n a qa (BaseOT_send K0 K1 b') qb tr = Deadlock"
| "step_second n a qa (BaseOT_receive sel k) qb tr = Deadlock"

section \<open>cwPRF-based private set intersection (src/unnamed/part\_001)\<close>

text \<open>
  \<^verbatim>\<open>size_t\<close> fields are natural numbers, and the loop counters, which the source
  declares \<^verbatim>\<open>auto i = 0\<close>, range over them; this is the source's behaviour for every
  vector of fewer than \<open>2^31\<close> elements.
\<close>

record PP =
  statistical_security_parameter :: nat
  computational_security_parameter :: nat
  LOG_SENDER_ITEM_NUM :: nat
  SENDER_ITEM_NUM :: nat
  LOG_RECEIVER_ITEM_NUM :: nat
  RECEIVER_ITEM_NUM :: nat
  TRUNCATE_LEN :: nat

text \<open>
  \<^verbatim>\<open>Setup\<close> (lines 75 to 94). \<^verbatim>\<open>size_t(pow(2, n))\<close> is \<open>2^n\<close>, which it is for every \<open>n\<close>
  below 64. The truncation length has no upper bound.
\<close>

definition Setup :: "nat \<Rightarrow> nat \<Rightarrow> nat \<Rightarrow> nat \<Rightarrow> PP" where
  "Setup computational statistical LOG_SENDER LOG_RECEIVER =
     \<lparr>statistical_security_parameter = statistical,
      computational_security_parameter = computational,
      LOG_SENDER_ITEM_NUM = LOG_SENDER,
      SENDER_ITEM_NUM = 2 ^ LOG_SENDER,
      LOG_RECEIVER_ITEM_NUM = LOG_RECEIVER,
      RECEIVER_ITEM_NUM = 2 ^ LOG_RECEIVER,
      TRUNCATE_LEN = (statistical + LOG_SENDER + LOG_RECEIVER + 7) div 8\<rparr>"

text \<open>
  What the protocol calls and the sources do not hold: the constant \<^verbatim>\<open>fixed_seed\<close>,
  \<^verbatim>\<open>PRG::SetSeed\<close> and \<^verbatim>\<open>GenRandomBytes\<close> (crypto/prg.hpp), \<^verbatim>\<open>Hash::BlockToBytes\<close>
  (crypto/hash.hpp) and \<^verbatim>\<open>x25519_scalar_mulx\<close>. They are parameters. A point is the
  content of its array \<^verbatim>\<open>px\<close>.

  \<^verbatim>\<open>SetSeed\<close> takes a pointer to a key, which may be null (the OT extension passes
  \<^verbatim>\<open>nullptr\<close>), and a counter. What a generator may draw from outside the program (the
  clock, the system's random source) is its first argument here, of type \<open>'rnd\<close>: every
  party of every run has its own value of it. Nothing is assumed about the use
  \<^verbatim>\<open>SetSeed\<close> makes of it; what the specification promises is the predicate
  \<open>prg_deterministic\<close> below.
\<close>

record ('seed, 'rnd) psi_primitives =
  fixed_seed :: block
  SetSeed :: "'rnd \<Rightarrow> block option \<Rightarrow> nat \<Rightarrow> 'seed"
  GenRandomBytes :: "'seed \<Rightarrow> nat \<Rightarrow> byte list \<times> 'seed"
  BlockToBytes :: "block \<Rightarrow> nat \<Rightarrow> byte list"
  x25519_scalar_mulx :: "byte list \<Rightarrow> EC25519Point \<Rightarrow> EC25519Point"

text \<open>The key \<^verbatim>\<open>k1\<close> of \<^verbatim>\<open>Send\<close> (lines 130 to 132) and \<^verbatim>\<open>k2\<close> of \<^verbatim>\<open>Receive\<close> (185 to 187).\<close>

definition sender_key :: "('seed, 'rnd) psi_primitives \<Rightarrow> 'rnd \<Rightarrow> byte list" where
  "sender_key P rnd =
     (let seed = SetSeed P rnd (Some (fixed_seed P)) 0 in fst (GenRandomBytes P seed 32))"

definition receiver_key :: "('seed, 'rnd) psi_primitives \<Rightarrow> 'rnd \<Rightarrow> byte list" where
  "receiver_key P rnd =
     (let seed = SetSeed P rnd (Some (fixed_seed P)) 0 in fst (GenRandomBytes P seed 32))"

text \<open>
  \<^verbatim>\<open>std::string(&px[0], &px[0] + TRUNCATE_LEN)\<close>: the string of the bytes \<^verbatim>\<open>px[0]\<close> to
  \<^verbatim>\<open>px[TRUNCATE_LEN - 1]\<close> of the 32-byte array. With more than 32 the constructor reads
  past the array: the processes below stop with undefined behaviour there.
\<close>

definition truncate_point :: "PP \<Rightarrow> EC25519Point \<Rightarrow> byte list" where
  "truncate_point pp point = map (\<lambda>i. point ! i) [0..<TRUNCATE_LEN pp]"

definition Send :: "('seed, 'rnd) psi_primitives \<Rightarrow> 'rnd \<Rightarrow> PP \<Rightarrow> block list \<Rightarrow> unit proc" where
  "Send P rnd pp vec_Y =
     (if length vec_Y \<noteq> SENDER_ITEM_NUM pp then Abort Exit_failure
      else
        let k1 = sender_key P rnd;
            vec_Hash_Y = map (\<lambda>i. BlockToBytes P (vec_Y ! i) 32) [0..<SENDER_ITEM_NUM pp];
            vec_Fk1_Y = map (\<lambda>i. x25519_scalar_mulx P k1 (vec_Hash_Y ! i))
                          [0..<SENDER_ITEM_NUM pp]
        in Send_msg (EC25519Points vec_Fk1_Y)
            (Receive_msg (\<lambda>m.
               case m of
                 EC25519Points vec_Fk2_X \<Rightarrow>
                   if length vec_Fk2_X \<noteq> RECEIVER_ITEM_NUM pp then Abort Channel_error
                   else
                     let vec_Fk1k2_X = map (\<lambda>i. x25519_scalar_mulx P k1 (vec_Fk2_X ! i))
                                         [0..<RECEIVER_ITEM_NUM pp]
                     in if 0 < RECEIVER_ITEM_NUM pp \<and> 32 < TRUNCATE_LEN pp
                        then Abort Undefined_behaviour
                        else
                          let vec_TRUNCATE_Fk1k2_X = map (\<lambda>i. truncate_point pp (vec_Fk1k2_X ! i))
                                                       [0..<RECEIVER_ITEM_NUM pp]
                          in Send_msg (StringVector vec_TRUNCATE_Fk1k2_X) (Return ())
               | _ \<Rightarrow> Abort Channel_error)))"

text \<open>
  \<^verbatim>\<open>Receive\<close>. The set \<^verbatim>\<open>S\<close> is the set of the truncated strings of the sender's
  points; \<^verbatim>\<open>vec_TRUNCATE_Fk1k2_X[i]\<close> is read for every \<open>i\<close> below
  \<^verbatim>\<open>RECEIVER_ITEM_NUM\<close>, whatever the length of the vector that arrived.
\<close>

definition Receive ::
  "('seed, 'rnd) psi_primitives \<Rightarrow> 'rnd \<Rightarrow> PP \<Rightarrow> block list \<Rightarrow> block list proc" where
  "Receive P rnd pp vec_X =
     (if length vec_X \<noteq> RECEIVER_ITEM_NUM pp then Abort Exit_failure
      else
        let k2 = receiver_key P rnd;
            vec_Hash_X = map (\<lambda>i. BlockToBytes P (vec_X ! i) 32) [0..<RECEIVER_ITEM_NUM pp];
            vec_Fk2_X = map (\<lambda>i. x25519_scalar_mulx P k2 (vec_Hash_X ! i))
                          [0..<RECEIVER_ITEM_NUM pp]
        in Receive_msg (\<lambda>m.
             case m of
               EC25519Points vec_Fk1_Y \<Rightarrow>
                 if length vec_Fk1_Y \<noteq> SENDER_ITEM_NUM pp then Abort Channel_error
                 else
                   Send_msg (EC25519Points vec_Fk2_X)
                    (let vec_Fk2k1_Y = map (\<lambda>i. x25519_scalar_mulx P k2 (vec_Fk1_Y ! i))
                                         [0..<SENDER_ITEM_NUM pp]
                     in Receive_msg (\<lambda>m'.
                          case m' of
                            StringVector vec_TRUNCATE_Fk1k2_X \<Rightarrow>
                              if 0 < SENDER_ITEM_NUM pp \<and> 32 < TRUNCATE_LEN pp
                              then Abort Undefined_behaviour
                              else
                                let S = set (map (\<lambda>i. truncate_point pp (vec_Fk2k1_Y ! i))
                                               [0..<SENDER_ITEM_NUM pp])
                                in if length vec_TRUNCATE_Fk1k2_X < RECEIVER_ITEM_NUM pp
                                   then Abort Undefined_behaviour
                                   else Return
                                     (map (\<lambda>i. vec_X ! i)
                                        (filter (\<lambda>i. vec_TRUNCATE_Fk1k2_X ! i \<in> S)
                                           [0..<RECEIVER_ITEM_NUM pp]))
                          | _ \<Rightarrow> Abort Channel_error))
             | _ \<Rightarrow> Abort Channel_error))"

text \<open>
  The joint run: the sender is the first party. Six steps are enough. \<open>rnd_S\<close> and
  \<open>rnd_R\<close> are what the two parties' generators may draw from outside in this run.
\<close>

definition psi_run ::
  "('seed, 'rnd) psi_primitives \<Rightarrow> 'rnd \<Rightarrow> 'rnd \<Rightarrow> PP \<Rightarrow> block list \<Rightarrow> block list \<Rightarrow>
   (unit, block list) outcome" where
  "psi_run P rnd_S rnd_R pp vec_X vec_Y =
     run_pair 8 (Send P rnd_S pp vec_Y) [] (Receive P rnd_R pp vec_X) [] []"

subsection \<open>The words of the specification\<close>

text \<open>
  Section 4.2: the same key and counter give the same stream on every host. In the
  terms above: a seed set from a key does not depend on what the run could draw from
  outside.
\<close>

definition prg_deterministic :: "('seed, 'rnd) psi_primitives \<Rightarrow> bool" where
  "prg_deterministic P \<longleftrightarrow>
     (\<forall>rnd rnd' key counter. SetSeed P rnd (Some key) counter = SetSeed P rnd' (Some key) counter)"

text \<open>\<^verbatim>\<open>x25519_scalar_mulx\<close> fills the 32 bytes of a point.\<close>

definition points_32 :: "('seed, 'rnd) psi_primitives \<Rightarrow> bool" where
  "points_32 P \<longleftrightarrow> (\<forall>k p. length (x25519_scalar_mulx P k p) = 32)"

text \<open>
  The keyed function \<open>F\<^sub>k(x) = H(x)\<^sup>k\<close> on an input block (on a point it is
  \<^verbatim>\<open>x25519_scalar_mulx\<close> with the key), the truncation \<open>trunc\<^sub>\<tau>\<close> to the first \<open>\<tau>\<close>
  bytes, and the three messages of a run written from the inputs.
\<close>

definition cwPRF :: "('seed, 'rnd) psi_primitives \<Rightarrow> byte list \<Rightarrow> block \<Rightarrow> EC25519Point" where
  "cwPRF P k x = x25519_scalar_mulx P k (BlockToBytes P x 32)"

definition trunc :: "nat \<Rightarrow> EC25519Point \<Rightarrow> byte list" where
  "trunc \<tau> point = take \<tau> point"

definition psi_transcript ::
  "('seed, 'rnd) psi_primitives \<Rightarrow> byte list \<Rightarrow> byte list \<Rightarrow> PP \<Rightarrow> block list \<Rightarrow> block list \<Rightarrow>
   (bool \<times> msg) list" where
  "psi_transcript P k1 k2 pp vec_X vec_Y =
     [(True, EC25519Points (map (cwPRF P k1) vec_Y)),
      (False, EC25519Points (map (cwPRF P k2) vec_X)),
      (True, StringVector
         (map (\<lambda>x. trunc (TRUNCATE_LEN pp) (x25519_scalar_mulx P k1 (cwPRF P k2 x))) vec_X))]"

text \<open>
  The receiver's output in the words of the specification: the elements \<open>x\<close> of
  \<open>X\<close>, in input order, whose \<open>trunc\<^sub>\<tau>(F\<^bsub>k1\<^esub>(F\<^bsub>k2\<^esub>(x)))\<close> is among the
  \<open>trunc\<^sub>\<tau>(F\<^bsub>k2\<^esub>(F\<^bsub>k1\<^esub>(y)))\<close> of the sender's elements \<open>y\<close>.
\<close>

definition psi_output ::
  "('seed, 'rnd) psi_primitives \<Rightarrow> byte list \<Rightarrow> byte list \<Rightarrow> nat \<Rightarrow> block list \<Rightarrow> block list \<Rightarrow>
   block list" where
  "psi_output P k1 k2 \<tau> vec_X vec_Y =
     filter (\<lambda>x. trunc \<tau> (x25519_scalar_mulx P k1 (cwPRF P k2 x))
                 \<in> set (map (\<lambda>y. trunc \<tau> (x25519_scalar_mulx P k2 (cwPRF P k1 y))) vec_Y))
       vec_X"

section \<open>NIZK proof of discrete-logarithm equality (src/unnamed/part\_002)\<close>

text \<open>
  Modelled from the spec: the group of curve points and the big integers
  (crypto/ec\_point.hpp and its \<^verbatim>\<open>BigInt\<close> are not among the sources). The
  specification (section 4.6) writes the group multiplicatively, \<open>h = g\<^sup>w\<close>; the source
  writes \<^verbatim>\<open>g * w\<close> and \<^verbatim>\<open>A + B\<close>. A point is an element of any commutative group
  \<open>'g\<close>, written additively as in the source; \<^verbatim>\<open>ECPoint * BigInt\<close> is the \<open>n\<close>-fold sum
  \<open>point_mul\<close>. Big integers are natural numbers: the source builds them from a random
  value below the order, a hash value, and \<^verbatim>\<open>+\<close>, \<^verbatim>\<open>*\<close> and \<^verbatim>\<open>%\<close> on these.
\<close>

fun point_mul :: "'g::ab_group_add \<Rightarrow> nat \<Rightarrow> 'g" where
  "point_mul g 0 = 0"
| "point_mul g (Suc n) = g + point_mul g n"

record 'g Instance =
  instance_g1 :: 'g
  instance_h1 :: 'g
  instance_g2 :: 'g
  instance_h2 :: 'g

record Witness =
  witness_w :: nat

record 'g Proof =
  proof_A1 :: 'g
  proof_A2 :: 'g
  proof_z :: nat

text \<open>
  The parameters of \<^verbatim>\<open>Prove\<close> and \<^verbatim>\<open>Verify\<close> that the sources do not hold:
  \<^verbatim>\<open>ECPoint::ToByteString\<close>, \<^verbatim>\<open>Hash::StringToBigInt\<close>, the group order \<^verbatim>\<open>order\<close>,
  and in \<^verbatim>\<open>Prove\<close> the value \<open>a\<close> that \<^verbatim>\<open>GenRandomBigIntLessThan(order)\<close> returns.
  Both functions append to \<^verbatim>\<open>transcript_str\<close>, which they take by reference: the
  string after the call is the second component of the result.
\<close>

definition Prove ::
  "('g::ab_group_add \<Rightarrow> string) \<Rightarrow> (string \<Rightarrow> nat) \<Rightarrow> nat \<Rightarrow> nat
     \<Rightarrow> 'g Instance \<Rightarrow> Witness \<Rightarrow> string \<Rightarrow> 'g Proof \<times> string" where
  "Prove ToByteString StringToBigInt order a inst witness transcript_str =
     (let t1 = transcript_str @ (ToByteString (instance_g1 inst) @ ToByteString (instance_g2 inst)
                 @ ToByteString (instance_h1 inst) @ ToByteString (instance_h2 inst));
          A1 = point_mul (instance_g1 inst) a;
          A2 = point_mul (instance_g2 inst) a;
          t2 = t1 @ (ToByteString A1 @ ToByteString A2);
          e = StringToBigInt t2;
          z = (a + e * witness_w witness) mod order
      in (\<lparr>proof_A1 = A1, proof_A2 = A2, proof_z = z\<rparr>, t2))"

definition Verify ::
  "('g::ab_group_add \<Rightarrow> string) \<Rightarrow> (string \<Rightarrow> nat)
     \<Rightarrow> 'g Instance \<Rightarrow> string \<Rightarrow> 'g Proof \<Rightarrow> bool \<times> string" where
  "Verify ToByteString StringToBigInt inst transcript_str pf =
     (let t1 = transcript_str @ (ToByteString (instance_g1 inst) @ ToByteString (instance_g2 inst)
                 @ ToByteString (instance_h1 inst) @ ToByteString (instance_h2 inst));
          t2 = t1 @ (ToByteString (proof_A1 pf) @ ToByteString (proof_A2 pf));
          e = StringToBigInt t2;
          V1 = (point_mul (instance_g1 inst) (proof_z pf)
                  = proof_A1 pf + point_mul (instance_h1 inst) e);
          V2 = (point_mul (instance_g2 inst) (proof_z pf)
                  = proof_A2 pf + point_mul (instance_h2 inst) e);
          Validity = (V1 \<and> V2)
      in (Validity, t2))"

text \<open>
  The challenge \<^verbatim>\<open>Verify\<close> computes for an instance, a prefix and a proof; a point
  has order \<open>q\<close> when exactly the multiples of \<open>q\<close> send it to the neutral element.
\<close>

definition challenge ::
  "('g::ab_group_add \<Rightarrow> string) \<Rightarrow> (string \<Rightarrow> nat) \<Rightarrow> 'g Instance \<Rightarrow> string \<Rightarrow> 'g Proof \<Rightarrow> nat" where
  "challenge ToByteString StringToBigInt inst transcript_str pf =
     StringToBigInt (snd (Verify ToByteString StringToBigInt inst transcript_str pf))"

definition has_order :: "'g::ab_group_add \<Rightarrow> nat \<Rightarrow> bool" where
  "has_order g q \<longleftrightarrow> (\<forall>n. point_mul g n = 0 \<longleftrightarrow> q dvd n)"

section \<open>Bit-matrix transpose (crypto/block.hpp)\<close>

text \<open>
  \<^verbatim>\<open>BitMatrixTranspose\<close> computes with \<^verbatim>\<open>int\<close>. A value outside the 32-bit range and
  an index outside a buffer have no defined result: they are faults. The buffers are
  byte lists given with their sizes.
\<close>

definition int_ok :: "int \<Rightarrow> bool" where
  "int_ok v \<longleftrightarrow> - (2 ^ 31) \<le> v \<and> v < 2 ^ 31"

text \<open>C's division of an \<^verbatim>\<open>int\<close> by 8 rounds towards zero.\<close>

definition cdiv8 :: "int \<Rightarrow> int" where
  "cdiv8 a = (if 0 \<le> a then a div 8 else - ((- a) div 8))"

text \<open>
  The macros \<^verbatim>\<open>INP(x,y) = inp[(x)*ncols/8 + (y)/8]\<close> and
  \<^verbatim>\<open>OUT(x,y) = out[(y)*nrows/8 + (x)/8]\<close>: the index, when every intermediate value is
  an \<^verbatim>\<open>int\<close>.
\<close>

definition INP_index :: "int \<Rightarrow> int \<Rightarrow> int \<Rightarrow> ub + int" where
  "INP_index ncols x y =
     (if int_ok x \<and> int_ok y \<and> int_ok (x * ncols) \<and> int_ok (cdiv8 (x * ncols) + cdiv8 y)
      then Inr (cdiv8 (x * ncols) + cdiv8 y) else Inl Signed_overflow)"

definition OUT_index :: "int \<Rightarrow> int \<Rightarrow> int \<Rightarrow> ub + int" where
  "OUT_index nrows x y =
     (if int_ok x \<and> int_ok y \<and> int_ok (y * nrows) \<and> int_ok (cdiv8 (y * nrows) + cdiv8 x)
      then Inr (cdiv8 (y * nrows) + cdiv8 x) else Inl Signed_overflow)"

text \<open>Reading and writing one byte, and a \<^verbatim>\<open>uint16_t\<close> as two bytes, low byte first.\<close>

definition read_u8 :: "byte list \<Rightarrow> int \<Rightarrow> ub + byte" where
  "read_u8 buf k =
     (if 0 \<le> k \<and> k < int (length buf) then Inr (buf ! nat k) else Inl Out_of_bounds)"

definition read_u16 :: "byte list \<Rightarrow> int \<Rightarrow> ub + (byte \<times> byte)" where
  "read_u16 buf k =
     (if 0 \<le> k \<and> k + 1 < int (length buf) then Inr (buf ! nat k, buf ! (nat k + 1))
      else Inl Out_of_bounds)"

definition write_u8 :: "byte list \<Rightarrow> int \<Rightarrow> byte \<Rightarrow> ub + byte list" where
  "write_u8 buf k v =
     (if 0 \<le> k \<and> k < int (length buf) then Inr (buf[nat k := v]) else Inl Out_of_bounds)"

definition write_u16 :: "byte list \<Rightarrow> int \<Rightarrow> byte \<Rightarrow> byte \<Rightarrow> ub + byte list" where
  "write_u16 buf k lo hi =
     (if 0 \<le> k \<and> k + 1 < int (length buf) then Inr (buf[nat k := lo, nat k + 1 := hi])
      else Inl Out_of_bounds)"

text \<open>
  The union \<^verbatim>\<open>tmp\<close>: the register \<^verbatim>\<open>tmp.x\<close> is the state, \<^verbatim>\<open>tmp.b[i] = v\<close> replaces its
  byte \<open>i\<close>. \<^verbatim>\<open>_mm_movemask_epi8\<close> collects the top bit of each of the sixteen bytes
  into an \<^verbatim>\<open>int\<close>; stored into a byte it keeps its low eight bits, and \<^verbatim>\<open>h >> 8\<close> is
  its upper half.
\<close>

definition set_b :: "block \<Rightarrow> nat \<Rightarrow> byte \<Rightarrow> block" where
  "set_b x i v = bytes_block ((block_bytes x)[i := v])"

definition mm_movemask_epi8 :: "block \<Rightarrow> int" where
  "mm_movemask_epi8 x = horner_sum of_bool 2 (map (\<lambda>j. bit x (8 * j + 7)) [0..<16])"

definition low_byte :: "int \<Rightarrow> byte" where
  "low_byte h = word_of_int h"

definition high_byte :: "int \<Rightarrow> byte" where
  "high_byte h = word_of_int (drop_bit 8 h)"

text \<open>A counted loop whose body may fault.\<close>

fun fold_ub :: "('a \<Rightarrow> 's \<Rightarrow> ub + 's) \<Rightarrow> 'a list \<Rightarrow> 's \<Rightarrow> ub + 's" where
  "fold_ub f [] s = Inr s"
| "fold_ub f (x # xs) s = (case f x s of Inl e \<Rightarrow> Inl e | Inr s' \<Rightarrow> fold_ub f xs s')"

text \<open>\<^verbatim>\<open>II\<close> is \<^verbatim>\<open>(i ^ 7)\<close>.\<close>

definition II :: "nat \<Rightarrow> int" where
  "II i = int (i XOR 7)"

subsection \<open>The main body: tiles of 16 rows and 8 columns\<close>

text \<open>\<^verbatim>\<open>for (i = 0; i < 16; ++i) tmp.b[i] = INP(rr + II, cc);\<close>\<close>

definition gather_16x8 :: "byte list \<Rightarrow> int \<Rightarrow> int \<Rightarrow> int \<Rightarrow> nat \<Rightarrow> block \<Rightarrow> ub + block" where
  "gather_16x8 inp ncols rr cc i tmp =
     (case INP_index ncols (rr + II i) cc of
        Inl e \<Rightarrow> Inl e
      | Inr k \<Rightarrow> (case read_u8 inp k of Inl e \<Rightarrow> Inl e | Inr v \<Rightarrow> Inr (set_b tmp i v)))"

text \<open>
  \<^verbatim>\<open>for (i = 8; i--; tmp.x = _mm_slli_epi64(tmp.x, 1))
      *(uint16_t*)&OUT(rr, cc + II) = _mm_movemask_epi8(tmp.x);\<close>:
  the body runs for \<open>i = 7, \<dots>, 0\<close> and the shift follows each round.
\<close>

definition scatter_16x8 ::
  "int \<Rightarrow> int \<Rightarrow> int \<Rightarrow> nat \<Rightarrow> block \<times> byte list \<Rightarrow> ub + (block \<times> byte list)" where
  "scatter_16x8 nrows rr cc i st =
     (case OUT_index nrows rr (cc + II i) of
        Inl e \<Rightarrow> Inl e
      | Inr k \<Rightarrow>
          (let h = mm_movemask_epi8 (fst st) in
           case write_u16 (snd st) k (low_byte h) (high_byte h) of
             Inl e \<Rightarrow> Inl e
           | Inr out' \<Rightarrow> Inr (mm_slli_epi64 (fst st) 1, out')))"

definition tile_16x8 ::
  "byte list \<Rightarrow> int \<Rightarrow> int \<Rightarrow> int \<Rightarrow> int \<Rightarrow> block \<times> byte list \<Rightarrow> ub + (block \<times> byte list)" where
  "tile_16x8 inp nrows ncols rr cc st =
     (case fold_ub (gather_16x8 inp ncols rr cc) [0..<16] (fst st) of
        Inl e \<Rightarrow> Inl e
      | Inr tmp \<Rightarrow> fold_ub (scatter_16x8 nrows rr cc) (rev [0..<8]) (tmp, snd st))"

text \<open>\<^verbatim>\<open>for (cc = 0; cc < ncols; cc += 8)\<close>\<close>

function cols_16x8 ::
  "byte list \<Rightarrow> int \<Rightarrow> int \<Rightarrow> int \<Rightarrow> int \<Rightarrow> block \<times> byte list \<Rightarrow> ub + (block \<times> byte list)" where
  "cols_16x8 inp nrows ncols rr cc st =
     (if cc < ncols
      then (case tile_16x8 inp nrows ncols rr cc st of
              Inl e \<Rightarrow> Inl e
            | Inr st' \<Rightarrow>
                if int_ok (cc + 8) then cols_16x8 inp nrows ncols rr (cc + 8) st'
                else Inl Signed_overflow)
      else Inr st)"
  by pat_completeness auto
termination
  by (relation "measure (\<lambda>(inp, nrows, ncols, rr, cc, st). nat (ncols - cc))") auto

declare cols_16x8.simps [simp del]

text \<open>\<^verbatim>\<open>for (rr = 0; rr <= nrows - 16; rr += 16)\<close>; the loop leaves \<open>rr\<close> behind.\<close>

function rows_16 ::
  "byte list \<Rightarrow> int \<Rightarrow> int \<Rightarrow> int \<Rightarrow> block \<times> byte list \<Rightarrow> ub + (int \<times> block \<times> byte list)" where
  "rows_16 inp nrows ncols rr st =
     (if rr \<le> nrows - 16
      then (case cols_16x8 inp nrows ncols rr 0 st of
              Inl e \<Rightarrow> Inl e
            | Inr st' \<Rightarrow>
                if int_ok (rr + 16) then rows_16 inp nrows ncols (rr + 16) st'
                else Inl Signed_overflow)
      else Inr (rr, st))"
  by pat_completeness auto
termination
  by (relation "measure (\<lambda>(inp, nrows, ncols, rr, st). nat (nrows - rr))") auto

declare rows_16.simps [simp del]

subsection \<open>The remainder: tiles of 8 rows and 16 columns, and a last tile of 8 by 8\<close>

text \<open>
  \<^verbatim>\<open>for (i = 8; i--;)
      tmp.b[i] = h = *(uint16_t const*)&INP(rr + II, cc), tmp.b[i + 8] = h >> 8;\<close>
\<close>

definition gather_8x16 :: "byte list \<Rightarrow> int \<Rightarrow> int \<Rightarrow> int \<Rightarrow> nat \<Rightarrow> block \<Rightarrow> ub + block" where
  "gather_8x16 inp ncols rr cc i tmp =
     (case INP_index ncols (rr + II i) cc of
        Inl e \<Rightarrow> Inl e
      | Inr k \<Rightarrow>
          (case read_u16 inp k of
             Inl e \<Rightarrow> Inl e
           | Inr (lo, hi) \<Rightarrow> Inr (set_b (set_b tmp i lo) (i + 8) hi)))"

text \<open>
  \<^verbatim>\<open>for (i = 8; i--; tmp.x = _mm_slli_epi64(tmp.x, 1))
      OUT(rr, cc + II) = h = _mm_movemask_epi8(tmp.x), OUT(rr, cc + II + 8) = h >> 8;\<close>
\<close>

definition scatter_8x16 ::
  "int \<Rightarrow> int \<Rightarrow> int \<Rightarrow> nat \<Rightarrow> block \<times> byte list \<Rightarrow> ub + (block \<times> byte list)" where
  "scatter_8x16 nrows rr cc i st =
     (let h = mm_movemask_epi8 (fst st) in
      case OUT_index nrows rr (cc + II i) of
        Inl e \<Rightarrow> Inl e
      | Inr k \<Rightarrow>
          (case write_u8 (snd st) k (low_byte h) of
             Inl e \<Rightarrow> Inl e
           | Inr out' \<Rightarrow>
               (case OUT_index nrows rr (cc + II i + 8) of
                  Inl e \<Rightarrow> Inl e
                | Inr k' \<Rightarrow>
                    (case write_u8 out' k' (high_byte h) of
                       Inl e \<Rightarrow> Inl e
                     | Inr out'' \<Rightarrow> Inr (mm_slli_epi64 (fst st) 1, out'')))))"

definition tile_8x16 ::
  "byte list \<Rightarrow> int \<Rightarrow> int \<Rightarrow> int \<Rightarrow> int \<Rightarrow> block \<times> byte list \<Rightarrow> ub + (block \<times> byte list)" where
  "tile_8x16 inp nrows ncols rr cc st =
     (case fold_ub (gather_8x16 inp ncols rr cc) (rev [0..<8]) (fst st) of
        Inl e \<Rightarrow> Inl e
      | Inr tmp \<Rightarrow> fold_ub (scatter_8x16 nrows rr cc) (rev [0..<8]) (tmp, snd st))"

text \<open>\<^verbatim>\<open>for (cc = 0; cc <= ncols - 16; cc += 16)\<close>; the loop leaves \<open>cc\<close> behind.\<close>

function cols_8x16 ::
  "byte list \<Rightarrow> int \<Rightarrow> int \<Rightarrow> int \<Rightarrow> int \<Rightarrow> block \<times> byte list
     \<Rightarrow> ub + (int \<times> block \<times> byte list)" where
  "cols_8x16 inp nrows ncols rr cc st =
     (if cc \<le> ncols - 16
      then (case tile_8x16 inp nrows ncols rr cc st of
              Inl e \<Rightarrow> Inl e
            | Inr st' \<Rightarrow>
                if int_ok (cc + 16) then cols_8x16 inp nrows ncols rr (cc + 16) st'
                else Inl Signed_overflow)
      else Inr (cc, st))"
  by pat_completeness auto
termination
  by (relation "measure (\<lambda>(inp, nrows, ncols, rr, cc, st). nat (ncols - cc))") auto

declare cols_8x16.simps [simp del]

text \<open>
  \<^verbatim>\<open>for (i = 8; i--;) tmp.b[i] = INP(rr + II, cc);\<close> and
  \<^verbatim>\<open>for (i = 8; i--; tmp.x = _mm_slli_epi64(tmp.x, 1))
      OUT(rr, cc + II) = _mm_movemask_epi8(tmp.x);\<close>
\<close>

definition scatter_8x8 ::
  "int \<Rightarrow> int \<Rightarrow> int \<Rightarrow> nat \<Rightarrow> block \<times> byte list \<Rightarrow> ub + (block \<times> byte list)" where
  "scatter_8x8 nrows rr cc i st =
     (case OUT_index nrows rr (cc + II i) of
        Inl e \<Rightarrow> Inl e
      | Inr k \<Rightarrow>
          (case write_u8 (snd st) k (low_byte (mm_movemask_epi8 (fst st))) of
             Inl e \<Rightarrow> Inl e
           | Inr out' \<Rightarrow> Inr (mm_slli_epi64 (fst st) 1, out')))"

definition tile_8x8 ::
  "byte list \<Rightarrow> int \<Rightarrow> int \<Rightarrow> int \<Rightarrow> int \<Rightarrow> block \<times> byte list \<Rightarrow> ub + (block \<times> byte list)" where
  "tile_8x8 inp nrows ncols rr cc st =
     (case fold_ub (gather_16x8 inp ncols rr cc) (rev [0..<8]) (fst st) of
        Inl e \<Rightarrow> Inl e
      | Inr tmp \<Rightarrow> fold_ub (scatter_8x8 nrows rr cc) (rev [0..<8]) (tmp, snd st))"

text \<open>
  \<^verbatim>\<open>BitMatrixTranspose(inp, nrows, ncols, out)\<close>. The arguments are \<^verbatim>\<open>int\<close>s, and so
  are \<^verbatim>\<open>nrows - 16\<close> and \<^verbatim>\<open>ncols - 16\<close> of the loop tests. The source leaves \<^verbatim>\<open>tmp\<close>
  uninitialised; a byte of it is always written before it is read into the result
  (in the last tile the bytes 8 to 15 reach only the upper half of the mask, which is
  dropped), and the model starts it at zero. The result is the buffer \<^verbatim>\<open>out\<close>
  after the call.
\<close>

definition BitMatrixTranspose :: "byte list \<Rightarrow> int \<Rightarrow> int \<Rightarrow> byte list \<Rightarrow> ub + byte list" where
  "BitMatrixTranspose inp nrows ncols out =
     (if \<not> (int_ok nrows \<and> int_ok ncols \<and> int_ok (nrows - 16)) then Inl Signed_overflow
      else
        case rows_16 inp nrows ncols 0 (0, out) of
          Inl e \<Rightarrow> Inl e
        | Inr (rr, st) \<Rightarrow>
            if rr = nrows then Inr (snd st)
            else if \<not> int_ok (ncols - 16) then Inl Signed_overflow
            else
              (case cols_8x16 inp nrows ncols rr 0 st of
                 Inl e \<Rightarrow> Inl e
               | Inr (cc, st') \<Rightarrow>
                   if cc = ncols then Inr (snd st')
                   else map_sum id snd (tile_8x8 inp nrows ncols rr cc st')))"

text \<open>
  How the routine lays a matrix out in a buffer: bit \<open>(x, y)\<close> of a matrix with \<open>w\<close>
  columns is bit \<open>7 - y mod 8\<close> of byte \<open>x * (w div 8) + y div 8\<close>. The transpose of an
  \<open>nrows \<times> ncols\<close> buffer, byte by byte.
\<close>

definition mbit :: "byte list \<Rightarrow> nat \<Rightarrow> nat \<Rightarrow> nat \<Rightarrow> bool" where
  "mbit buf w x y = bit (buf ! (x * (w div 8) + y div 8)) (7 - y mod 8)"

definition byte_of_bits :: "(nat \<Rightarrow> bool) \<Rightarrow> byte" where
  "byte_of_bits f = horner_sum of_bool 2 (map f [0..<8])"

definition transposed_byte :: "byte list \<Rightarrow> nat \<Rightarrow> nat \<Rightarrow> nat \<Rightarrow> byte" where
  "transposed_byte inp nrows ncols k =
     byte_of_bits (\<lambda>b. mbit inp ncols (8 * (k mod (nrows div 8)) + 7 - b) (k div (nrows div 8)))"

definition transposed :: "byte list \<Rightarrow> nat \<Rightarrow> nat \<Rightarrow> byte list" where
  "transposed inp nrows ncols =
     map (transposed_byte inp nrows ncols) [0..<nrows * ncols div 8]"

text \<open>
  The shapes the routine is used on: both dimensions are multiples of 8 and \<^verbatim>\<open>int\<close>s,
  and the matrix has at most \<open>2^31\<close> bits, so that every index the macros compute is
  an \<^verbatim>\<open>int\<close>.
\<close>

definition shape_ok :: "nat \<Rightarrow> nat \<Rightarrow> bool" where
  "shape_ok R C \<longleftrightarrow>
     R mod 8 = 0 \<and> C mod 8 = 0 \<and> R < 2 ^ 31 \<and> C < 2 ^ 31 \<and> R * C \<le> 2 ^ 31"

subsection \<open>\<^verbatim>\<open>empBitMatrixTranspose\<close>\<close>

text \<open>
  Here the dimensions are \<^verbatim>\<open>uint64_t\<close> and the counters \<^verbatim>\<open>rr\<close>, \<^verbatim>\<open>cc\<close>, \<^verbatim>\<open>i\<close> are \<^verbatim>\<open>int\<close>. In
  \<^verbatim>\<open>INPUT(x, y) = input[(x)*COLUMN_NUM/8 + (y)/8]\<close> the \<^verbatim>\<open>int\<close> \<open>x\<close> becomes a \<^verbatim>\<open>uint64_t\<close>,
  product, quotient and sum are taken modulo \<open>2^64\<close>, and \<^verbatim>\<open>(y)/8\<close> is an \<^verbatim>\<open>int\<close> division;
  \<^verbatim>\<open>OUTPUT(x, y) = output[(y)*ROW_NUM/8 + (x)/8]\<close> likewise. The loop tests compare the
  counter, as a \<^verbatim>\<open>uint64_t\<close>, with \<^verbatim>\<open>ROW_NUM - 16\<close> and \<^verbatim>\<open>COLUMN_NUM - 16\<close>, which wrap
  around below 16.
\<close>

definition INPUT_index :: "64 word \<Rightarrow> int \<Rightarrow> int \<Rightarrow> ub + int" where
  "INPUT_index COLUMN_NUM x y =
     (if int_ok x \<and> int_ok y
      then Inr (uint (word_of_int x * COLUMN_NUM div 8 + word_of_int (cdiv8 y)))
      else Inl Signed_overflow)"

definition OUTPUT_index :: "64 word \<Rightarrow> int \<Rightarrow> int \<Rightarrow> ub + int" where
  "OUTPUT_index ROW_NUM x y =
     (if int_ok x \<and> int_ok y
      then Inr (uint (word_of_int y * ROW_NUM div 8 + word_of_int (cdiv8 x)))
      else Inl Signed_overflow)"

text \<open>
  \<^verbatim>\<open>vec = _mm_set_epi8(INPUT(rr + 15, cc), \<dots>, INPUT(rr + 0, cc))\<close>: byte \<open>j\<close> of the
  register is \<^verbatim>\<open>INPUT(rr + j, cc)\<close>. All sixteen bytes are read, in an order the language
  does not fix.
\<close>

definition emp_gather_16x8 :: "byte list \<Rightarrow> 64 word \<Rightarrow> int \<Rightarrow> int \<Rightarrow> nat \<Rightarrow> block \<Rightarrow> ub + block" where
  "emp_gather_16x8 input COLUMN_NUM rr cc j vec =
     (case INPUT_index COLUMN_NUM (rr + int j) cc of
        Inl e \<Rightarrow> Inl e
      | Inr k \<Rightarrow> (case read_u8 input k of Inl e \<Rightarrow> Inl e | Inr v \<Rightarrow> Inr (set_b vec j v)))"

text \<open>
  \<^verbatim>\<open>for (i = 8; --i >= 0; vec = _mm_slli_epi64(vec, 1))
      *(uint16_t *)&OUTPUT(rr, cc + i) = _mm_movemask_epi8(vec);\<close>
\<close>

definition emp_scatter_16x8 ::
  "64 word \<Rightarrow> int \<Rightarrow> int \<Rightarrow> nat \<Rightarrow> block \<times> byte list \<Rightarrow> ub + (block \<times> byte list)" where
  "emp_scatter_16x8 ROW_NUM rr cc i st =
     (case OUTPUT_index ROW_NUM rr (cc + int i) of
        Inl e \<Rightarrow> Inl e
      | Inr k \<Rightarrow>
          (let h = mm_movemask_epi8 (fst st) in
           case write_u16 (snd st) k (low_byte h) (high_byte h) of
             Inl e \<Rightarrow> Inl e
           | Inr out' \<Rightarrow> Inr (mm_slli_epi64 (fst st) 1, out')))"

definition emp_tile_16x8 ::
  "byte list \<Rightarrow> 64 word \<Rightarrow> 64 word \<Rightarrow> int \<Rightarrow> int \<Rightarrow> byte list \<Rightarrow> ub + byte list" where
  "emp_tile_16x8 input ROW_NUM COLUMN_NUM rr cc out =
     (case fold_ub (emp_gather_16x8 input COLUMN_NUM rr cc) [0..<16] 0 of
        Inl e \<Rightarrow> Inl e
      | Inr vec \<Rightarrow> map_sum id snd (fold_ub (emp_scatter_16x8 ROW_NUM rr cc) (rev [0..<8]) (vec, out)))"

text \<open>
  \<^verbatim>\<open>for (cc = 0; cc < COLUMN_NUM; cc += 8)\<close>. The counter is an \<^verbatim>\<open>int\<close>: the loop ends, at
  the latest when \<^verbatim>\<open>cc += 8\<close> leaves the \<^verbatim>\<open>int\<close> range.
\<close>

function emp_cols_16x8 ::
  "byte list \<Rightarrow> 64 word \<Rightarrow> 64 word \<Rightarrow> int \<Rightarrow> int \<Rightarrow> byte list \<Rightarrow> ub + byte list" where
  "emp_cols_16x8 input ROW_NUM COLUMN_NUM rr cc out =
     (if (word_of_int cc :: 64 word) < COLUMN_NUM
      then (case emp_tile_16x8 input ROW_NUM COLUMN_NUM rr cc out of
              Inl e \<Rightarrow> Inl e
            | Inr out' \<Rightarrow>
                if int_ok (cc + 8) then emp_cols_16x8 input ROW_NUM COLUMN_NUM rr (cc + 8) out'
                else Inl Signed_overflow)
      else Inr out)"
  by pat_completeness auto
termination
  by (relation "measure (\<lambda>(input, ROW_NUM, COLUMN_NUM, rr, cc, out). nat (2 ^ 31 - cc))")
     (auto simp: int_ok_def)

declare emp_cols_16x8.simps [simp del]

text \<open>\<^verbatim>\<open>for (rr = 0; rr <= ROW_NUM - 16; rr += 16)\<close>; the loop leaves \<open>rr\<close> behind.\<close>

function emp_rows_16 ::
  "byte list \<Rightarrow> 64 word \<Rightarrow> 64 word \<Rightarrow> int \<Rightarrow> byte list \<Rightarrow> ub + (int \<times> byte list)" where
  "emp_rows_16 input ROW_NUM COLUMN_NUM rr out =
     (if (word_of_int rr :: 64 word) \<le> ROW_NUM - 16
      then (case emp_cols_16x8 input ROW_NUM COLUMN_NUM rr 0 out of
              Inl e \<Rightarrow> Inl e
            | Inr out' \<Rightarrow>
                if int_ok (rr + 16) then emp_rows_16 input ROW_NUM COLUMN_NUM (rr + 16) out'
                else Inl Signed_overflow)
      else Inr (rr, out))"
  by pat_completeness auto
termination
  by (relation "measure (\<lambda>(input, ROW_NUM, COLUMN_NUM, rr, out). nat (2 ^ 31 - rr))")
     (auto simp: int_ok_def)

declare emp_rows_16.simps [simp del]

text \<open>
  The remainder, first branch:
  \<^verbatim>\<open>for (i = 0; i < 8; ++i) { tmp.b[i] = h = *(uint16_t const *)&INPUT(rr + i, cc); tmp.b[i + 8] = h >> 8; }\<close>
  and
  \<^verbatim>\<open>for (i = 8; --i >= 0; tmp.x = _mm_slli_epi64(tmp.x, 1)) { OUTPUT(rr, cc + i) = h = _mm_movemask_epi8(tmp.x); OUTPUT(rr, cc + i + 8) = h >> 8; }\<close>
\<close>

definition emp_gather_8x16 :: "byte list \<Rightarrow> 64 word \<Rightarrow> int \<Rightarrow> int \<Rightarrow> nat \<Rightarrow> block \<Rightarrow> ub + block" where
  "emp_gather_8x16 input COLUMN_NUM rr cc i tmp =
     (case INPUT_index COLUMN_NUM (rr + int i) cc of
        Inl e \<Rightarrow> Inl e
      | Inr k \<Rightarrow>
          (case read_u16 input k of
             Inl e \<Rightarrow> Inl e
           | Inr (lo, hi) \<Rightarrow> Inr (set_b (set_b tmp i lo) (i + 8) hi)))"

definition emp_scatter_8x16 ::
  "64 word \<Rightarrow> int \<Rightarrow> int \<Rightarrow> nat \<Rightarrow> block \<times> byte list \<Rightarrow> ub + (block \<times> byte list)" where
  "emp_scatter_8x16 ROW_NUM rr cc i st =
     (let h = mm_movemask_epi8 (fst st) in
      case OUTPUT_index ROW_NUM rr (cc + int i) of
        Inl e \<Rightarrow> Inl e
      | Inr k \<Rightarrow>
          (case write_u8 (snd st) k (low_byte h) of
             Inl e \<Rightarrow> Inl e
           | Inr out' \<Rightarrow>
               (case OUTPUT_index ROW_NUM rr (cc + int i + 8) of
                  Inl e \<Rightarrow> Inl e
                | Inr k' \<Rightarrow>
                    (case write_u8 out' k' (high_byte h) of
                       Inl e \<Rightarrow> Inl e
                     | Inr out'' \<Rightarrow> Inr (mm_slli_epi64 (fst st) 1, out'')))))"

text \<open>
  The second branch fills \<^verbatim>\<open>vec\<close> with \<^verbatim>\<open>_mm_set_epi16\<close> of the eight \<^verbatim>\<open>uint16_t\<close> at
  \<^verbatim>\<open>INPUT(rr + i, cc)\<close>: the 16-bit lane \<open>i\<close> holds the two bytes of row \<open>i\<close>. \<^verbatim>\<open>tmp\<close> is
  left as it was.
\<close>

definition emp_gather_epi16 :: "byte list \<Rightarrow> 64 word \<Rightarrow> int \<Rightarrow> int \<Rightarrow> nat \<Rightarrow> block \<Rightarrow> ub + block" where
  "emp_gather_epi16 input COLUMN_NUM rr cc i vec =
     (case INPUT_index COLUMN_NUM (rr + int i) cc of
        Inl e \<Rightarrow> Inl e
      | Inr k \<Rightarrow>
          (case read_u16 input k of
             Inl e \<Rightarrow> Inl e
           | Inr (lo, hi) \<Rightarrow> Inr (set_b (set_b vec (2 * i) lo) (2 * i + 1) hi)))"

text \<open>
  One step of \<^verbatim>\<open>for (cc = 0; cc <= COLUMN_NUM - 16; cc += 16)\<close> in either branch; the
  state is \<^verbatim>\<open>tmp\<close> and the output buffer.
\<close>

definition emp_tile_8x16 ::
  "bool \<Rightarrow> byte list \<Rightarrow> 64 word \<Rightarrow> 64 word \<Rightarrow> int \<Rightarrow> int \<Rightarrow> block \<times> byte list
     \<Rightarrow> ub + (block \<times> byte list)" where
  "emp_tile_8x16 simple input ROW_NUM COLUMN_NUM rr cc st =
     (if simple
      then (case fold_ub (emp_gather_8x16 input COLUMN_NUM rr cc) [0..<8] (fst st) of
              Inl e \<Rightarrow> Inl e
            | Inr tmp \<Rightarrow> fold_ub (emp_scatter_8x16 ROW_NUM rr cc) (rev [0..<8]) (tmp, snd st))
      else (case fold_ub (emp_gather_epi16 input COLUMN_NUM rr cc) [0..<8] 0 of
              Inl e \<Rightarrow> Inl e
            | Inr vec \<Rightarrow>
                (case fold_ub (emp_scatter_8x16 ROW_NUM rr cc) (rev [0..<8]) (vec, snd st) of
                   Inl e \<Rightarrow> Inl e
                 | Inr (vec', out') \<Rightarrow> Inr (fst st, out'))))"

function emp_cols_8x16 ::
  "bool \<Rightarrow> byte list \<Rightarrow> 64 word \<Rightarrow> 64 word \<Rightarrow> int \<Rightarrow> int \<Rightarrow> block \<times> byte list
     \<Rightarrow> ub + (int \<times> block \<times> byte list)" where
  "emp_cols_8x16 simple input ROW_NUM COLUMN_NUM rr cc st =
     (if (word_of_int cc :: 64 word) \<le> COLUMN_NUM - 16
      then (case emp_tile_8x16 simple input ROW_NUM COLUMN_NUM rr cc st of
              Inl e \<Rightarrow> Inl e
            | Inr st' \<Rightarrow>
                if int_ok (cc + 16)
                then emp_cols_8x16 simple input ROW_NUM COLUMN_NUM rr (cc + 16) st'
                else Inl Signed_overflow)
      else Inr (cc, st))"
  by pat_completeness auto
termination
  by (relation "measure (\<lambda>(simple, input, ROW_NUM, COLUMN_NUM, rr, cc, st). nat (2 ^ 31 - cc))")
     (auto simp: int_ok_def)

declare emp_cols_8x16.simps [simp del]

text \<open>
  The last tile: \<^verbatim>\<open>for (i = 0; i < 8; ++i) tmp.b[i] = INPUT(rr + i, cc);\<close> and
  \<^verbatim>\<open>for (i = 8; --i >= 0; tmp.x = _mm_slli_epi64(tmp.x, 1)) OUTPUT(rr, cc + i) = _mm_movemask_epi8(tmp.x);\<close>
\<close>

definition emp_scatter_8x8 ::
  "64 word \<Rightarrow> int \<Rightarrow> int \<Rightarrow> nat \<Rightarrow> block \<times> byte list \<Rightarrow> ub + (block \<times> byte list)" where
  "emp_scatter_8x8 ROW_NUM rr cc i st =
     (case OUTPUT_index ROW_NUM rr (cc + int i) of
        Inl e \<Rightarrow> Inl e
      | Inr k \<Rightarrow>
          (case write_u8 (snd st) k (low_byte (mm_movemask_epi8 (fst st))) of
             Inl e \<Rightarrow> Inl e
           | Inr out' \<Rightarrow> Inr (mm_slli_epi64 (fst st) 1, out')))"

definition emp_tile_8x8 ::
  "byte list \<Rightarrow> 64 word \<Rightarrow> 64 word \<Rightarrow> int \<Rightarrow> int \<Rightarrow> block \<times> byte list \<Rightarrow> ub + byte list" where
  "emp_tile_8x8 input ROW_NUM COLUMN_NUM rr cc st =
     (case fold_ub (emp_gather_16x8 input COLUMN_NUM rr cc) [0..<8] (fst st) of
        Inl e \<Rightarrow> Inl e
      | Inr tmp \<Rightarrow> map_sum id snd (fold_ub (emp_scatter_8x8 ROW_NUM rr cc) (rev [0..<8]) (tmp, snd st)))"

text \<open>
  \<^verbatim>\<open>empBitMatrixTranspose(input, ROW_NUM, COLUMN_NUM, output)\<close>, with the \<^verbatim>\<open>assert\<close> active.
  \<^verbatim>\<open>tmp\<close> starts at zero, as in \<^const>\<open>BitMatrixTranspose\<close>. The result is the buffer
  \<^verbatim>\<open>output\<close> after the call.
\<close>

definition empBitMatrixTranspose ::
  "byte list \<Rightarrow> 64 word \<Rightarrow> 64 word \<Rightarrow> byte list \<Rightarrow> ub + byte list" where
  "empBitMatrixTranspose input ROW_NUM COLUMN_NUM output =
     (if \<not> (ROW_NUM mod 8 = 0 \<and> COLUMN_NUM mod 8 = 0) then Inl Assertion_failed
      else
        case emp_rows_16 input ROW_NUM COLUMN_NUM 0 output of
          Inl e \<Rightarrow> Inl e
        | Inr (rr, out) \<Rightarrow>
            if (word_of_int rr :: 64 word) = ROW_NUM then Inr out
            else
              (case emp_cols_8x16
                      ((COLUMN_NUM mod 8 = 0 \<and> COLUMN_NUM mod 16 \<noteq> 0)
                       \<or> (ROW_NUM mod 8 = 0 \<and> ROW_NUM mod 16 \<noteq> 0))
                      input ROW_NUM COLUMN_NUM rr 0 (0, out) of
                 Inl e \<Rightarrow> Inl e
               | Inr (cc, st) \<Rightarrow>
                   if (word_of_int cc :: 64 word) = COLUMN_NUM then Inr (snd st)
                   else emp_tile_8x8 input ROW_NUM COLUMN_NUM rr cc st))"

text \<open>
  The layout \<^verbatim>\<open>empBitMatrixTranspose\<close> works in: bit \<open>(x, y)\<close> of a matrix with \<open>w\<close> columns
  is bit \<open>y mod 8\<close> of byte \<open>x * (w div 8) + y div 8\<close>.
\<close>

definition emp_mbit :: "byte list \<Rightarrow> nat \<Rightarrow> nat \<Rightarrow> nat \<Rightarrow> bool" where
  "emp_mbit buf w x y = bit (buf ! (x * (w div 8) + y div 8)) (y mod 8)"

definition emp_transposed :: "byte list \<Rightarrow> nat \<Rightarrow> nat \<Rightarrow> byte list" where
  "emp_transposed input nrows ncols =
     map (\<lambda>k. byte_of_bits (\<lambda>b. emp_mbit input ncols (8 * (k mod (nrows div 8)) + b) (k div (nrows div 8))))
       [0..<nrows * ncols div 8]"

section \<open>ALSZ OT extension\<close>

text \<open>
  mpc/ot/alsz\_ote.hpp. \<^verbatim>\<open>ALSZOTE::PP\<close> without its field \<^verbatim>\<open>baseOT\<close>, the parameters of the
  base OT, which is a step of the channel here.
\<close>

record ALSZ_PP =
  malicious :: byte
  BASE_LEN :: nat

text \<open>
  The routines the extension calls and the sources do not hold: the generator
  (crypto/prg.hpp), \<^verbatim>\<open>Hash::BlocksToBlock\<close> (crypto/hash.hpp), and \<^verbatim>\<open>Block::FromSparseBytes\<close>
  and \<^verbatim>\<open>Block::AND\<close>, which crypto/block.hpp does not define. They are parameters. The
  generator's routines take the seed and return it updated; \<^verbatim>\<open>FromSparseBytes\<close> takes
  the bytes, their number and the number of blocks, and returns the blocks.
\<close>

record 'seed ote_primitives =
  GenRandomBits :: "'seed \<Rightarrow> nat \<Rightarrow> byte list \<times> 'seed"
  GenRandomBlocks :: "'seed \<Rightarrow> nat \<Rightarrow> block list \<times> 'seed"
  ReSeed :: "'seed \<Rightarrow> block \<Rightarrow> nat \<Rightarrow> 'seed"
  BlocksToBlock :: "block list \<Rightarrow> block"
  FromSparseBytes :: "byte list \<Rightarrow> nat \<Rightarrow> nat \<Rightarrow> block list"
  Block_AND :: "block list \<Rightarrow> block list \<Rightarrow> block list"

text \<open>\<^verbatim>\<open>CheckParameters\<close> leaves the program when a dimension is no multiple of 128.\<close>

definition CheckParameters :: "nat \<Rightarrow> nat \<Rightarrow> 'r proc \<Rightarrow> 'r proc" where
  "CheckParameters ROW_NUM COLUMN_NUM cont =
     (if ROW_NUM mod 128 \<noteq> 0 \<or> COLUMN_NUM mod 128 \<noteq> 0 then Abort Exit_failure else cont)"

text \<open>\<^verbatim>\<open>io.ReceiveBlocks(data, LEN)\<close>: the next message is \<open>LEN\<close> blocks.\<close>

definition ReceiveBlocks :: "nat \<Rightarrow> (block list \<Rightarrow> 'r proc) \<Rightarrow> 'r proc" where
  "ReceiveBlocks LEN cont =
     Receive_msg (\<lambda>m. case m of
        Blocks bs \<Rightarrow> if length bs \<noteq> LEN then Abort Channel_error else cont bs
      | _ \<Rightarrow> Abort Channel_error)"

text \<open>
  The call \<^verbatim>\<open>BitMatrixTranspose((uint8_t*)M.data(), COLUMN_NUM, ROW_NUM, (uint8_t*)M_transpose.data())\<close>:
  the two \<^verbatim>\<open>size_t\<close> become \<^verbatim>\<open>int\<close> (their low 32 bits, read as signed), and the output
  vector holds \<^verbatim>\<open>ROW_NUM/128 * COLUMN_NUM\<close> zero blocks.
\<close>

definition size_t_to_int :: "nat \<Rightarrow> int" where
  "size_t_to_int n = sint (word_of_nat n :: 32 word)"

definition transpose_blocks :: "block list \<Rightarrow> nat \<Rightarrow> nat \<Rightarrow> ub + block list" where
  "transpose_blocks M COLUMN_NUM ROW_NUM =
     (case BitMatrixTranspose (blocks_bytes M) (size_t_to_int COLUMN_NUM) (size_t_to_int ROW_NUM)
             (blocks_bytes (replicate (ROW_NUM div 128 * COLUMN_NUM) zero_block)) of
        Inl e \<Rightarrow> Inl e
      | Inr out \<Rightarrow> Inr (bytes_blocks out))"

text \<open>
  \<^verbatim>\<open>memcpy(M_row.data(), M_transpose.data()+i*COLUMN_NUM/128, COLUMN_NUM/8)\<close> into a vector of
  \<^verbatim>\<open>COLUMN_NUM/128\<close> blocks. \<^verbatim>\<open>COLUMN_NUM\<close> is a multiple of 128 where this runs, so whole
  blocks are copied.
\<close>

definition row_blocks :: "block list \<Rightarrow> nat \<Rightarrow> nat \<Rightarrow> ub + block list" where
  "row_blocks M_transpose COLUMN_NUM i =
     (if i * COLUMN_NUM div 128 + COLUMN_NUM div 128 \<le> length M_transpose
      then Inr (take (COLUMN_NUM div 128) (drop (i * COLUMN_NUM div 128) M_transpose))
      else Inl Out_of_bounds)"

subsection \<open>The sender\<close>

definition Q_seeds :: "byte list \<Rightarrow> block list \<Rightarrow> block list \<Rightarrow> block list \<Rightarrow> nat \<Rightarrow> block list" where
  "Q_seeds vec_sender_selection_bit vec_inner_C0 vec_inner_C1 vec_inner_K COLUMN_NUM =
     map (\<lambda>j. if vec_sender_selection_bit ! j = 0 then vec_inner_C0 ! j XOR vec_inner_K ! j
              else vec_inner_C1 ! j XOR vec_inner_K ! j) [0..<COLUMN_NUM]"

definition Q_column_step ::
  "'seed ote_primitives \<Rightarrow> nat \<Rightarrow> block list \<Rightarrow> nat \<Rightarrow> 'seed \<times> block list \<Rightarrow> 'seed \<times> block list" where
  "Q_column_step prims ROW_NUM vec_Q_seed j = (\<lambda>(seed, Q).
     let seed1 = ReSeed prims seed (vec_Q_seed ! j) 0;
         (Q_column, seed2) = GenRandomBlocks prims seed1 (ROW_NUM div 128)
     in (seed2, Q @ Q_column))"

definition Q_columns :: "'seed ote_primitives \<Rightarrow> nat \<Rightarrow> nat \<Rightarrow> block list \<Rightarrow> 'seed \<Rightarrow> block list" where
  "Q_columns prims ROW_NUM COLUMN_NUM vec_Q_seed seed =
     snd (fold (Q_column_step prims ROW_NUM vec_Q_seed) [0..<COLUMN_NUM] (seed, []))"

text \<open>One round of the last loop of \<^verbatim>\<open>PrepareSend\<close>: the keys of row \<open>i\<close>.\<close>

definition K01_step ::
  "'seed ote_primitives \<Rightarrow> nat \<Rightarrow> block list \<Rightarrow> block list \<Rightarrow> block list \<Rightarrow> nat \<Rightarrow>
   block list \<times> block list \<Rightarrow> ub + block list \<times> block list" where
  "K01_step prims COLUMN_NUM Q_transpose P_transpose vec_sender_selection_block i = (\<lambda>(vec_K0, vec_K1).
     case row_blocks Q_transpose COLUMN_NUM i of Inl e \<Rightarrow> Inl e | Inr Q_row0 \<Rightarrow>
     case row_blocks P_transpose COLUMN_NUM i of Inl e \<Rightarrow> Inl e | Inr P_row \<Rightarrow>
     let vec_adjust = Block_AND prims vec_sender_selection_block P_row in
     case XOR_blocks Q_row0 vec_adjust of Inl e \<Rightarrow> Inl e | Inr Q_row \<Rightarrow>
     case XOR_blocks Q_row vec_sender_selection_block of Inl e \<Rightarrow> Inl e | Inr Q_row1 \<Rightarrow>
     if i < length vec_K0 \<and> i < length vec_K1
     then Inr (vec_K0[i := BlocksToBlock prims Q_row], vec_K1[i := BlocksToBlock prims Q_row1])
     else Inl Out_of_bounds)"

text \<open>
  \<^verbatim>\<open>PrepareSend\<close>. \<open>seed\<close> is the result of \<^verbatim>\<open>PRG::SetSeed(nullptr, 0)\<close>; \<open>vec_K0\<close> and \<open>vec_K1\<close>
  are the caller's vectors, and \<open>cont\<close> is what the caller does with them afterwards.
\<close>

definition PrepareSend ::
  "'seed ote_primitives \<Rightarrow> 'seed \<Rightarrow> ALSZ_PP \<Rightarrow> block list \<Rightarrow> block list \<Rightarrow> nat \<Rightarrow>
   (block list \<times> block list \<Rightarrow> 'r proc) \<Rightarrow> 'r proc" where
  "PrepareSend prims seed pp vec_K0 vec_K1 EXTEND_LEN cont =
     (let ROW_NUM = EXTEND_LEN; COLUMN_NUM = BASE_LEN pp in
      CheckParameters ROW_NUM COLUMN_NUM
       (let (vec_sender_selection_bit, seed1) = GenRandomBits prims seed COLUMN_NUM in
        BaseOT_receive vec_sender_selection_bit (\<lambda>vec_inner_K.
        ReceiveBlocks COLUMN_NUM (\<lambda>vec_inner_C0.
        ReceiveBlocks COLUMN_NUM (\<lambda>vec_inner_C1.
          if length vec_sender_selection_bit < COLUMN_NUM \<or> length vec_inner_K < COLUMN_NUM
          then Abort Undefined_behaviour
          else
            let vec_Q_seed = Q_seeds vec_sender_selection_bit vec_inner_C0 vec_inner_C1
                               vec_inner_K COLUMN_NUM;
                Q = Q_columns prims ROW_NUM COLUMN_NUM vec_Q_seed seed1
            in case transpose_blocks Q COLUMN_NUM ROW_NUM of
                 Inl e \<Rightarrow> Abort Undefined_behaviour
               | Inr Q_transpose \<Rightarrow>
                   ReceiveBlocks (ROW_NUM div 128 * COLUMN_NUM) (\<lambda>P.
                     case transpose_blocks P COLUMN_NUM ROW_NUM of
                       Inl e \<Rightarrow> Abort Undefined_behaviour
                     | Inr P_transpose \<Rightarrow>
                         let vec_sender_selection_block =
                               FromSparseBytes prims vec_sender_selection_bit COLUMN_NUM
                                 (COLUMN_NUM div 128)
                         in case fold_ub (K01_step prims COLUMN_NUM Q_transpose P_transpose
                                            vec_sender_selection_block)
                                   [0..<ROW_NUM] (vec_K0, vec_K1) of
                              Inl e \<Rightarrow> Abort Undefined_behaviour
                            | Inr Ks \<Rightarrow> cont Ks))))))"

subsection \<open>The receiver\<close>

text \<open>
  One round of the column loop of \<^verbatim>\<open>PrepareReceive\<close>. \<open>U\<close> receives \<open>T_column\<close>, as in the
  source.
\<close>

definition TUP_step ::
  "'seed ote_primitives \<Rightarrow> nat \<Rightarrow> block list \<Rightarrow> block list \<Rightarrow> block list \<Rightarrow> nat \<Rightarrow>
   'seed \<times> block list \<times> block list \<times> block list \<Rightarrow>
   ub + 'seed \<times> block list \<times> block list \<times> block list" where
  "TUP_step prims ROW_NUM vec_T_seed vec_U_seed vec_receiver_selection_block j = (\<lambda>(seed, T, U, P).
     let seed1 = ReSeed prims seed (vec_T_seed ! j) 0;
         (T_column, seed2) = GenRandomBlocks prims seed1 (ROW_NUM div 128);
         seed3 = ReSeed prims seed2 (vec_U_seed ! j) 0;
         (U_column, seed4) = GenRandomBlocks prims seed3 (ROW_NUM div 128)
     in case XOR_blocks T_column U_column of Inl e \<Rightarrow> Inl e | Inr P_column0 \<Rightarrow>
        case XOR_blocks P_column0 vec_receiver_selection_block of Inl e \<Rightarrow> Inl e | Inr P_column \<Rightarrow>
          Inr (seed4, T @ T_column, U @ T_column, P @ P_column))"

definition K_step :: "'seed ote_primitives \<Rightarrow> nat \<Rightarrow> block list \<Rightarrow> nat \<Rightarrow> block list \<Rightarrow> ub + block list" where
  "K_step prims COLUMN_NUM T_transpose i vec_K =
     (case row_blocks T_transpose COLUMN_NUM i of Inl e \<Rightarrow> Inl e | Inr T_row \<Rightarrow>
      if i < length vec_K then Inr (vec_K[i := BlocksToBlock prims T_row]) else Inl Out_of_bounds)"

definition PrepareReceive ::
  "'seed ote_primitives \<Rightarrow> 'seed \<Rightarrow> ALSZ_PP \<Rightarrow> block list \<Rightarrow> byte list \<Rightarrow> nat \<Rightarrow>
   (block list \<Rightarrow> 'r proc) \<Rightarrow> 'r proc" where
  "PrepareReceive prims seed pp vec_K vec_receiver_selection_bit EXTEND_LEN cont =
     (let ROW_NUM = EXTEND_LEN; COLUMN_NUM = BASE_LEN pp in
      CheckParameters ROW_NUM COLUMN_NUM
       (let (vec_T_seed, seed1) = GenRandomBlocks prims seed COLUMN_NUM;
            (vec_U_seed, seed2) = GenRandomBlocks prims seed1 COLUMN_NUM;
            vec_receiver_selection_block =
              FromSparseBytes prims vec_receiver_selection_bit ROW_NUM (ROW_NUM div 128)
        in if length vec_T_seed < COLUMN_NUM \<or> length vec_U_seed < COLUMN_NUM
           then Abort Undefined_behaviour
           else
             case fold_ub (TUP_step prims ROW_NUM vec_T_seed vec_U_seed vec_receiver_selection_block)
                    [0..<COLUMN_NUM] (seed2, [], [], []) of
               Inl e \<Rightarrow> Abort Undefined_behaviour
             | Inr (seed3, T, U, P) \<Rightarrow>
                 let (vec_inner_K0, seed4) = GenRandomBlocks prims seed3 COLUMN_NUM;
                     (vec_inner_K1, seed5) = GenRandomBlocks prims seed4 COLUMN_NUM
                 in BaseOT_send vec_inner_K0 vec_inner_K1
                     (if length vec_inner_K0 < COLUMN_NUM \<or> length vec_inner_K1 < COLUMN_NUM
                      then Abort Undefined_behaviour
                      else
                        let vec_inner_C0 = map (\<lambda>j. vec_inner_K0 ! j XOR vec_T_seed ! j) [0..<COLUMN_NUM];
                            vec_inner_C1 = map (\<lambda>j. vec_inner_K1 ! j XOR vec_U_seed ! j) [0..<COLUMN_NUM]
                        in Send_msg (Blocks vec_inner_C0)
                            (Send_msg (Blocks vec_inner_C1)
                              (if length P < ROW_NUM div 128 * COLUMN_NUM
                               then Abort Undefined_behaviour
                               else Send_msg (Blocks (take (ROW_NUM div 128 * COLUMN_NUM) P))
                                 (case transpose_blocks T COLUMN_NUM ROW_NUM of
                                    Inl e \<Rightarrow> Abort Undefined_behaviour
                                  | Inr T_transpose \<Rightarrow>
                                      (case fold_ub (K_step prims COLUMN_NUM T_transpose)
                                              [0..<ROW_NUM] vec_K of
                                         Inl e \<Rightarrow> Abort Undefined_behaviour
                                       | Inr vec_K' \<Rightarrow> cont vec_K')))))))"

subsection \<open>The transfer\<close>

definition ALSZ_Send ::
  "'seed ote_primitives \<Rightarrow> 'seed \<Rightarrow> ALSZ_PP \<Rightarrow> block list \<Rightarrow> block list \<Rightarrow> nat \<Rightarrow> unit proc" where
  "ALSZ_Send prims seed pp vec_m0 vec_m1 EXTEND_LEN =
     (let ROW_NUM = EXTEND_LEN; COLUMN_NUM = BASE_LEN pp in
      CheckParameters ROW_NUM COLUMN_NUM
       (PrepareSend prims seed pp (replicate ROW_NUM 0) (replicate ROW_NUM 0) EXTEND_LEN
          (\<lambda>(vec_K0, vec_K1).
             if length vec_m0 < ROW_NUM \<or> length vec_m1 < ROW_NUM then Abort Undefined_behaviour
             else
               let vec_outer_C0 = map (\<lambda>i. vec_m0 ! i XOR vec_K0 ! i) [0..<ROW_NUM];
                   vec_outer_C1 = map (\<lambda>i. vec_m1 ! i XOR vec_K1 ! i) [0..<ROW_NUM]
               in Send_msg (Blocks vec_outer_C0) (Send_msg (Blocks vec_outer_C1) (Return ())))))"

definition ALSZ_Receive ::
  "'seed ote_primitives \<Rightarrow> 'seed \<Rightarrow> ALSZ_PP \<Rightarrow> byte list \<Rightarrow> nat \<Rightarrow> block list proc" where
  "ALSZ_Receive prims seed pp vec_receiver_selection_bit EXTEND_LEN =
     (let ROW_NUM = EXTEND_LEN; COLUMN_NUM = BASE_LEN pp in
      CheckParameters ROW_NUM COLUMN_NUM
       (PrepareReceive prims seed pp (replicate ROW_NUM 0) vec_receiver_selection_bit EXTEND_LEN
          (\<lambda>vec_K.
             ReceiveBlocks ROW_NUM (\<lambda>vec_outer_C0.
             ReceiveBlocks ROW_NUM (\<lambda>vec_outer_C1.
               if length vec_receiver_selection_bit < ROW_NUM then Abort Undefined_behaviour
               else Return (map (\<lambda>i. if vec_receiver_selection_bit ! i = 0
                                      then vec_outer_C0 ! i XOR vec_K ! i
                                      else vec_outer_C1 ! i XOR vec_K ! i) [0..<ROW_NUM]))))))"

text \<open>
  The two parties against each other. The sender is the first party; it has its own
  generator seed, and so has the receiver.
\<close>

definition ote_run ::
  "'seed ote_primitives \<Rightarrow> 'seed \<Rightarrow> 'seed \<Rightarrow> ALSZ_PP \<Rightarrow> block list \<Rightarrow> block list \<Rightarrow> byte list \<Rightarrow> nat \<Rightarrow>
   (unit, block list) outcome" where
  "ote_run prims seed_S seed_R pp vec_m0 vec_m1 vec_receiver_selection_bit EXTEND_LEN =
     run_pair 16 (ALSZ_Send prims seed_S pp vec_m0 vec_m1 EXTEND_LEN) []
       (ALSZ_Receive prims seed_R pp vec_receiver_selection_bit EXTEND_LEN) [] []"


subsection \<open>What is asked of the missing routines\<close>

text \<open>
  Bit \<open>i\<close> of a dense vector of blocks, in the order \<^verbatim>\<open>BitMatrixTranspose\<close> reads a row: byte
  \<open>i div 8\<close> of the vector, and in it bit \<open>7 - i mod 8\<close>.
\<close>

definition dense_bit :: "block list \<Rightarrow> nat \<Rightarrow> bool" where
  "dense_bit v i = bit (v ! (i div 128)) (8 * (i mod 128 div 8) + (7 - i mod 8))"

text \<open>The blocks the generator returns after \<^verbatim>\<open>ReSeed\<close> with a key.\<close>

definition expand :: "'seed ote_primitives \<Rightarrow> 'seed \<Rightarrow> block \<Rightarrow> nat \<Rightarrow> block list" where
  "expand prims seed key n = fst (GenRandomBlocks prims (ReSeed prims seed key 0) n)"

text \<open>
  The generator returns as many bytes or blocks as asked, its bits are bytes 0 and 1,
  and after \<^verbatim>\<open>ReSeed\<close> its output depends on the new key only. \<^verbatim>\<open>Block::AND\<close> works block
  by block. \<^verbatim>\<open>FromSparseBytes\<close> stores bit \<open>i\<close> of a bit vector where \<^const>\<open>dense_bit\<close> reads
  it.
\<close>

definition primitives_ok :: "'seed ote_primitives \<Rightarrow> bool" where
  "primitives_ok prims \<longleftrightarrow>
     (\<forall>seed n. length (fst (GenRandomBits prims seed n)) = n
               \<and> set (fst (GenRandomBits prims seed n)) \<subseteq> {0, 1})
   \<and> (\<forall>seed n. length (fst (GenRandomBlocks prims seed n)) = n)
   \<and> (\<forall>seed seed' key n. fst (GenRandomBlocks prims (ReSeed prims seed key 0) n)
                          = fst (GenRandomBlocks prims (ReSeed prims seed' key 0) n))
   \<and> (\<forall>a b. length a = length b \<longrightarrow> Block_AND prims a b = map2 (AND) a b)
   \<and> (\<forall>bits n. length bits = 128 * n \<and> set bits \<subseteq> {0, 1} \<longrightarrow>
         length (FromSparseBytes prims bits (128 * n) n) = n
       \<and> (\<forall>i<128 * n. dense_bit (FromSparseBytes prims bits (128 * n) n) i \<longleftrightarrow> bits ! i = 1))"

text \<open>
  A packing with this layout, which shows that the last condition can be met.
\<close>

definition pack_bits :: "byte list \<Rightarrow> nat \<Rightarrow> nat \<Rightarrow> block list" where
  "pack_bits bits BYTE_LEN BLOCK_LEN =
     map (\<lambda>k. horner_sum of_bool 2
                (map (\<lambda>p. bits ! (128 * k + 8 * (p div 8) + (7 - p mod 8)) = 1) [0..<128]))
       [0..<BLOCK_LEN]"

section \<open>Proofs: blocks as bytes, dense and sparse bits\<close>

lemma length_block_bytes [simp]: "length (block_bytes b) = 16"
  by (simp add: block_bytes_def)

lemma bit_bytes_block:
  "bit (bytes_block bs) n \<longleftrightarrow> n < 128 \<and> n div 8 < length bs \<and> bit (bs ! (n div 8)) (n mod 8)"
proof -
  have "bit (horner_sum uint (2 ^ 8) (take 16 bs)) n \<longleftrightarrow>
     n div 8 < length (take 16 bs) \<and> bit ((take 16 bs) ! (n div 8)) (n mod 8)"
    using bit_horner_sum_uint_exp_iff[of "take 16 bs" n] by simp
  then show ?thesis
    unfolding bytes_block_def
    by (auto simp add: bit_word_of_int_iff less_mult_imp_div_less)
qed

lemma bytes_block_block_bytes [simp]: "bytes_block (block_bytes b) = b"
  apply (rule bit_eqI)
  apply (simp add: bit_bytes_block)
  apply (auto simp: block_bytes_def bit_ucast_iff bit_drop_bit_eq less_mult_imp_div_less
              dest: bit_imp_le_length)
  done

lemma block_bytes_bytes_block [simp]: "length bs = 16 \<Longrightarrow> block_bytes (bytes_block bs) = bs"
  apply (rule nth_equalityI)
   apply simp
  apply (rule bit_eqI)
  apply (simp add: block_bytes_def bit_ucast_iff bit_drop_bit_eq bit_bytes_block)
  done

lemma length_blocks_bytes [simp]: "length (blocks_bytes bs) = 16 * length bs"
  by (induction bs) (simp_all add: blocks_bytes_def)

lemma length_bytes_blocks [simp]: "length (bytes_blocks bs) = length bs div 16"
  by (simp add: bytes_blocks_def)

lemma blocks_bytes_Cons: "blocks_bytes (b # bs) = block_bytes b @ blocks_bytes bs"
  by (simp add: blocks_bytes_def)

lemma take16_drop_blocks_bytes:
  "i < length bs \<Longrightarrow> take 16 (drop (16 * i) (blocks_bytes bs)) = block_bytes (bs ! i)"
proof (induction bs arbitrary: i)
  case Nil
  then show ?case by simp
next
  case (Cons b bs)
  show ?case
  proof (cases i)
    case 0
    then show ?thesis by (simp add: blocks_bytes_Cons)
  next
    case (Suc j)
    with Cons show ?thesis by (simp add: blocks_bytes_Cons)
  qed
qed

lemma blocks_bytes_nth:
  assumes k: "k < 16 * length bs"
  shows "blocks_bytes bs ! k = block_bytes (bs ! (k div 16)) ! (k mod 16)"
proof -
  have i: "k div 16 < length bs"
    using k by (simp add: less_mult_imp_div_less mult.commute)
  have "block_bytes (bs ! (k div 16)) ! (k mod 16)
       = take 16 (drop (16 * (k div 16)) (blocks_bytes bs)) ! (k mod 16)"
    using take16_drop_blocks_bytes[OF i] by simp
  also have "\<dots> = blocks_bytes bs ! k"
    using k by simp
  finally show ?thesis by simp
qed

lemma bytes_blocks_blocks_bytes [simp]: "bytes_blocks (blocks_bytes bs) = bs"
  by (rule nth_equalityI) (simp_all add: bytes_blocks_def take16_drop_blocks_bytes)

lemma blocks_bytes_bytes_blocks [simp]:
  assumes l: "length bs = 16 * n"
  shows "blocks_bytes (bytes_blocks bs) = bs"
proof (rule nth_equalityI)
  show "length (blocks_bytes (bytes_blocks bs)) = length bs" using l by simp
  fix k assume "k < length (blocks_bytes (bytes_blocks bs))"
  then have k: "k < 16 * n" using l by simp
  then have i: "k div 16 < n" by (simp add: less_mult_imp_div_less mult.commute)
  have "16 * (k div 16) + 16 \<le> 16 * n" using i by simp
  then have len: "length (take 16 (drop (16 * (k div 16)) bs)) = 16" using l by simp
  show "blocks_bytes (bytes_blocks bs) ! k = bs ! k"
    using k l i len by (simp add: blocks_bytes_nth bytes_blocks_def)
qed

text \<open>
  The dense half of the packing round trip holds: \<^verbatim>\<open>FromDenseBits\<close> into \<open>n\<close> blocks
  followed by \<^verbatim>\<open>ToDenseBits\<close> gives back every byte string of length \<open>16 n\<close>.
\<close>

lemma dense_roundtrip:
  assumes "length bool_data = 16 * n" "length block_data = n" "length out = 16 * n"
  shows "\<exists>blocks. FromDenseBits bool_data (128 * n) block_data = Some blocks
           \<and> length blocks = n
           \<and> ToDenseBits blocks out (128 * n) = Some bool_data"
  using assms by (simp add: FromDenseBits_def ToDenseBits_def memcpy_def)

text \<open>
  \<^verbatim>\<open>Calc2ToTheN\<close> as written shifts the all-ones block \<^emph>\<open>left\<close> by 63 first, so each
  lane holds \<open>2^63\<close> and not 1: the later left shift by \<open>N mod 64\<close> leaves bit 63 (or
  127) for \<open>N = 0\<close> (or 64) and nothing otherwise.
\<close>

lemma Calc2ToTheN_0: "Calc2ToTheN 0 = 2 ^ 63"
  by code_simp

lemma Calc2ToTheN_1: "Calc2ToTheN 1 = 0"
  by code_simp

lemma FromSparseBits_step_id: "FromSparseBits_step bool_data i j blk = blk"
  by (simp add: FromSparseBits_step_def)

lemma fold_FromSparseBits_step: "fold (FromSparseBits_step bool_data i) js blk = blk"
  by (induction js) (simp_all add: FromSparseBits_step_id)

lemma FromSparseBits_all_zero:
  "128 * BLOCK_LEN \<le> length bool_data \<Longrightarrow>
   FromSparseBits bool_data BIT_LEN BLOCK_LEN = Some (replicate BLOCK_LEN 0)"
  by (simp add: FromSparseBits_def fold_FromSparseBits_step zero_block_def MakeBlock_def
        map_replicate_const)

text \<open>
  Claim C4 (sparse half): for a sparse byte string of length \<open>128 n\<close> with entries in
  \<open>{0, 1}\<close>, bit \<open>j\<close> of block \<open>i\<close> of \<^verbatim>\<open>FromSparseBits\<close> should equal byte
  \<open>128 i + j\<close>. On the 128 bytes \<open>1, 0, \<dots>, 0\<close> the source returns the zero block:
  byte 0 is 1 and bit 0 of block 0 is not set, because the value \<^verbatim>\<open>SetBitN\<close> returns is
  dropped.
\<close>

theorem FromSparseBits_drops_set_bit:
  "FromSparseBits (1 # replicate 127 0) 128 1 = Some [zero_block]
   \<and> (1 # replicate 127 (0::byte)) ! 0 = 1 \<and> \<not> bit zero_block 0"
  using FromSparseBits_all_zero[of 1 "1 # replicate 127 0" 128]
  by (simp add: zero_block_def MakeBlock_def)

section \<open>Proofs: Bloom filter\<close>

lemma nat_and_7: "(n::nat) AND 7 = n mod 8"
proof -
  have "n AND mask 3 = n mod 2 ^ 3"
    by (simp only: take_bit_eq_mask[symmetric] take_bit_eq_mod)
  then show ?thesis by (simp add: mask_eq_exp_minus_1)
qed

lemma bit_mask_nth: "j < 8 \<Longrightarrow> bit_mask ! j = 2 ^ j"
proof -
  assume "j < 8"
  then have "j \<in> {0,1,2,3,4,5,6,7}" by auto
  then show ?thesis by (auto simp: bit_mask_def)
qed

lemma and_pow2_eq_iff:
  assumes "j < 8" shows "((b::byte) AND 2 ^ j = 2 ^ j) \<longleftrightarrow> bit b j"
proof
  assume "b AND 2 ^ j = 2 ^ j"
  then have "bit (b AND 2 ^ j) j = bit ((2::byte) ^ j) j" by simp
  then show "bit b j" using assms by (simp add: bit_and_iff bit_exp_iff)
next
  assume "bit b j"
  then show "b AND 2 ^ j = 2 ^ j"
    by (intro bit_eqI) (auto simp add: bit_and_iff bit_exp_iff)
qed

lemma hidx_less: "table_size bf \<noteq> 0 \<Longrightarrow> hidx H bf input i < unat (table_size bf)"
  unfolding hidx_def by (simp add: unat_mod unat_gt_0)

lemma hidx_cong:
  "vec_salt a = vec_salt b \<Longrightarrow> table_size a = table_size b \<Longrightarrow> hidx H a = hidx H b"
  by (intro ext) (simp add: hidx_def)

lemma PlainInsert_step_Some:
  assumes "i < length (vec_salt bf)" "table_size bf \<noteq> 0"
    "unat (table_size bf) \<le> 8 * length tbl"
  shows "\<exists>tbl'. PlainInsert_step H bf input i tbl = Some tbl' \<and> length tbl' = length tbl
     \<and> tbit tbl' (hidx H bf input i)
     \<and> (\<forall>k. k div 8 < length tbl \<longrightarrow> tbit tbl k \<longrightarrow> tbit tbl' k)"
proof -
  let ?k = "hidx H bf input i"
  have lt: "?k < unat (table_size bf)" using assms(2) by (rule hidx_less)
  then have d: "?k div 8 < length tbl" using assms(3) by simp
  let ?t = "tbl[?k div 8 := tbl ! (?k div 8) OR 2 ^ (?k mod 8)]"
  have step: "PlainInsert_step H bf input i tbl = Some ?t"
    using assms(1,2) d
    by (simp add: PlainInsert_step_def hidx_def[symmetric] Let_def drop_bit_eq_div nat_and_7
          bit_mask_nth)
  have b1: "tbit ?t ?k" using d by (simp add: tbit_def bit_or_iff bit_exp_iff)
  have b2: "\<forall>k. k div 8 < length tbl \<longrightarrow> tbit tbl k \<longrightarrow> tbit ?t k"
    using d by (auto simp add: tbit_def nth_list_update bit_or_iff)
  show ?thesis using step b1 b2 by simp
qed

lemma PlainInsert_loop_Some:
  assumes "\<forall>i\<in>set js. i < length (vec_salt bf)" "table_size bf \<noteq> 0"
    "unat (table_size bf) \<le> 8 * length tbl"
  shows "\<exists>tbl'. PlainInsert_loop H bf input js tbl = Some tbl' \<and> length tbl' = length tbl
     \<and> (\<forall>i\<in>set js. tbit tbl' (hidx H bf input i))
     \<and> (\<forall>k. k div 8 < length tbl \<longrightarrow> tbit tbl k \<longrightarrow> tbit tbl' k)"
  using assms
proof (induction js arbitrary: tbl)
  case Nil
  then show ?case by simp
next
  case (Cons i js)
  from Cons.prems obtain t1 where t1: "PlainInsert_step H bf input i tbl = Some t1"
      "length t1 = length tbl" "tbit t1 (hidx H bf input i)"
      "\<forall>k. k div 8 < length tbl \<longrightarrow> tbit tbl k \<longrightarrow> tbit t1 k"
    using PlainInsert_step_Some[of i bf tbl H input] by auto
  from Cons.prems t1(2)
  have "\<exists>tbl'. PlainInsert_loop H bf input js t1 = Some tbl' \<and> length tbl' = length t1
     \<and> (\<forall>i\<in>set js. tbit tbl' (hidx H bf input i))
     \<and> (\<forall>k. k div 8 < length t1 \<longrightarrow> tbit t1 k \<longrightarrow> tbit tbl' k)"
    by (intro Cons.IH) auto
  then obtain t2 where t2: "PlainInsert_loop H bf input js t1 = Some t2"
     "length t2 = length t1"
     "\<forall>i\<in>set js. tbit t2 (hidx H bf input i)"
     "\<forall>k. k div 8 < length t1 \<longrightarrow> tbit t1 k \<longrightarrow> tbit t2 k" by auto
  have hk: "hidx H bf input i div 8 < length tbl"
    using hidx_less[OF Cons.prems(2), of H input i] Cons.prems(3) by simp
  show ?case using t1 t2 hk by auto
qed

lemma PlainContain_loop_True:
  assumes "table_size bf \<noteq> 0" "unat (table_size bf) \<le> 8 * length (bit_table bf)"
    "\<forall>i\<in>set js. tbit (bit_table bf) (hidx H bf input i)"
  shows "PlainContain_loop H bf input js = Some True"
  using assms(3)
proof (induction js)
  case Nil
  then show ?case by simp
next
  case (Cons i js)
  let ?k = "hidx H bf input i"
  have d: "?k div 8 < length (bit_table bf)"
    using hidx_less[OF assms(1), of H input i] assms(2) by simp
  have "tbit (bit_table bf) ?k" using Cons.prems by simp
  then have "bit_table bf ! (?k div 8) AND 2 ^ (?k mod 8) = 2 ^ (?k mod 8)"
    by (simp add: tbit_def and_pow2_eq_iff)
  then show ?case using Cons assms(1) d
    by (simp add: hidx_def[symmetric] Let_def drop_bit_eq_div nat_and_7 bit_mask_nth)
qed

lemma PlainInsert_ok:
  assumes "bf_ok bf"
  shows "\<exists>bf'. PlainInsert H bf input = Some bf' \<and> bf_ok bf'
     \<and> vec_salt bf' = vec_salt bf \<and> table_size bf' = table_size bf
     \<and> length (bit_table bf') = length (bit_table bf)
     \<and> (\<forall>i < length (vec_salt bf). tbit (bit_table bf') (hidx H bf input i))
     \<and> (\<forall>k. k div 8 < length (bit_table bf) \<longrightarrow> tbit (bit_table bf) k
            \<longrightarrow> tbit (bit_table bf') k)"
proof -
  have "\<forall>i\<in>set [0..<unat (hash_num bf)]. i < length (vec_salt bf)"
    using assms by (simp add: bf_ok_def)
  from PlainInsert_loop_Some[OF this, of "bit_table bf" H input] assms
  obtain tbl' where t:
     "PlainInsert_loop H bf input [0..<unat (hash_num bf)] (bit_table bf) = Some tbl'"
     "length tbl' = length (bit_table bf)"
     "\<forall>i\<in>set [0..<unat (hash_num bf)]. tbit tbl' (hidx H bf input i)"
     "\<forall>k. k div 8 < length (bit_table bf) \<longrightarrow> tbit (bit_table bf) k \<longrightarrow> tbit tbl' k"
    by (auto simp: bf_ok_def)
  show ?thesis using t assms by (simp add: PlainInsert_def bf_ok_def)
qed

lemma insert_all_ok:
  assumes "bf_ok bf"
  shows "\<exists>bf'. insert_all H bf xs = Some bf' \<and> bf_ok bf'
     \<and> vec_salt bf' = vec_salt bf \<and> table_size bf' = table_size bf
     \<and> length (bit_table bf') = length (bit_table bf)
     \<and> (\<forall>x\<in>set xs. \<forall>i < length (vec_salt bf). tbit (bit_table bf') (hidx H bf x i))
     \<and> (\<forall>k. k div 8 < length (bit_table bf) \<longrightarrow> tbit (bit_table bf) k
            \<longrightarrow> tbit (bit_table bf') k)"
  using assms
proof (induction xs arbitrary: bf)
  case Nil
  then show ?case by simp
next
  case (Cons x xs)
  from PlainInsert_ok[OF Cons.prems, of H x] obtain b1 where b1:
    "PlainInsert H bf x = Some b1" "bf_ok b1" "vec_salt b1 = vec_salt bf"
    "table_size b1 = table_size bf"
    "length (bit_table b1) = length (bit_table bf)"
    "\<forall>i < length (vec_salt bf). tbit (bit_table b1) (hidx H bf x i)"
    "\<forall>k. k div 8 < length (bit_table bf) \<longrightarrow> tbit (bit_table bf) k \<longrightarrow> tbit (bit_table b1) k"
    by blast
  from Cons.IH[OF b1(2)] obtain b2 where b2:
    "insert_all H b1 xs = Some b2" "bf_ok b2" "vec_salt b2 = vec_salt b1"
    "table_size b2 = table_size b1"
    "length (bit_table b2) = length (bit_table b1)"
    "\<forall>x\<in>set xs. \<forall>i < length (vec_salt b1). tbit (bit_table b2) (hidx H b1 x i)"
    "\<forall>k. k div 8 < length (bit_table b1) \<longrightarrow> tbit (bit_table b1) k \<longrightarrow> tbit (bit_table b2) k"
    by blast
  have h: "hidx H b1 = hidx H bf" using b1 by (intro hidx_cong) auto
  have ts: "table_size bf \<noteq> 0" "unat (table_size bf) \<le> 8 * length (bit_table bf)"
    using Cons.prems by (auto simp: bf_ok_def)
  have kx: "\<forall>i < length (vec_salt bf). tbit (bit_table b2) (hidx H bf x i)"
  proof (intro allI impI)
    fix i assume "i < length (vec_salt bf)"
    then have "tbit (bit_table b1) (hidx H bf x i)" using b1(6) by simp
    moreover have "hidx H bf x i div 8 < length (bit_table b1)"
      using hidx_less[OF ts(1), of H x i] ts(2) b1(5) by simp
    ultimately show "tbit (bit_table b2) (hidx H bf x i)" using b2(7) by simp
  qed
  show ?case using b1 b2 kx h by auto
qed

text \<open>
  When the bit table holds \<^verbatim>\<open>table_size\<close> bits, a filter with \<open>table_size > 0\<close> and
  \<open>vec_salt\<close> of length \<open>hash_num\<close> takes every sequence of \<^verbatim>\<open>PlainInsert\<close> without leaving
  the table, and afterwards \<^verbatim>\<open>PlainContain\<close> returns true for every element of the
  sequence, whatever was inserted before or after it.
\<close>

lemma no_false_negatives_in_table:
  assumes "table_size bf \<noteq> 0" "length (vec_salt bf) = unat (hash_num bf)"
    "unat (table_size bf) \<le> 8 * length (bit_table bf)"
  shows "\<exists>bf'. insert_all H bf xs = Some bf'
           \<and> (\<forall>x\<in>set xs. PlainContain H bf' x = Some True)"
proof -
  have ok: "bf_ok bf" using assms by (simp add: bf_ok_def)
  from insert_all_ok[OF ok, of H xs] obtain b2 where b2:
    "insert_all H bf xs = Some b2" "bf_ok b2" "vec_salt b2 = vec_salt bf"
    "table_size b2 = table_size bf"
    "length (bit_table b2) = length (bit_table bf)"
    "\<forall>x\<in>set xs. \<forall>i < length (vec_salt bf). tbit (bit_table b2) (hidx H bf x i)"
    by blast
  have h: "hidx H b2 = hidx H bf" using b2 by (intro hidx_cong) auto
  have "\<forall>x\<in>set xs. PlainContain H b2 x = Some True"
  proof
    fix x assume x: "x \<in> set xs"
    have "\<forall>i\<in>set [0..<length (vec_salt b2)]. tbit (bit_table b2) (hidx H b2 x i)"
      using b2 x h by simp
    then show "PlainContain H b2 x = Some True"
      unfolding PlainContain_def using b2(2)
      by (intro PlainContain_loop_True) (auto simp: bf_ok_def)
  qed
  then show ?thesis using b2(1) by blast
qed

lemma log2_quarter: "log 2 (1 / 4) = - 2"
proof -
  have "log 2 (1 / 4) = log 2 (2 powr (- 2))" by (simp add: powr_minus_divide)
  also have "\<dots> = - 2" by simp
  finally show ?thesis .
qed

lemma length_mix_salt [simp]: "length (mix_salt s i v) = length v"
  by (simp add: mix_salt_def)

lemma length_fold_mix_salt [simp]: "length (fold (mix_salt s) is v) = length v"
  by (induction "is" arbitrary: v) simp_all

lemma length_predefined_salt [simp]: "length predefined_salt = 128"
  by (simp add: predefined_salt_def)

lemma length_GenUniqueSaltVector:
  "n \<le> 128 \<Longrightarrow> length (GenUniqueSaltVector rand_salts n seed) = n"
  by (simp add: GenUniqueSaltVector_def)

text \<open>
  Claim C8 says that no inserted element is reported absent, for every filter with
  \<open>table_size > 0\<close> and \<open>vec_salt\<close> of length \<open>hash_num\<close>. The filter the constructor builds
  for one projected element and the probability 0.25 is such a filter: it has two
  hashes and \<open>table_size = 2\<close> (from 2.88), and its table has \<open>2/8 = 0\<close> bytes. Whatever
  the hash function and the element, the first \<^verbatim>\<open>PlainInsert\<close> indexes \<^verbatim>\<open>bit_table[0]\<close> of
  the empty vector: the insertion has no defined result, and no \<^verbatim>\<open>PlainContain\<close> follows.
\<close>

theorem bloom_constructed_table_too_short:
  "\<exists>bf. BloomFilter_new rand_salts unassigned 1 (1 / 4) = Some bf
        \<and> table_size bf \<noteq> 0 \<and> length (vec_salt bf) = unat (hash_num bf)
        \<and> hash_num bf = 2 \<and> table_size bf = 2 \<and> bit_table bf = []
        \<and> PlainInsert H bf x = None \<and> insert_all H bf [x] = None"
  by (simp add: BloomFilter_new_def log2_quarter Let_def length_GenUniqueSaltVector
        PlainInsert_def PlainInsert_step_def upt_conv_Cons)

subsection \<open>Persistence\<close>

lemma length_le32 [simp]: "length (le32 w) = 4"
  by (simp add: le32_def)

lemma bit_word_le32:
  "bit (word_le32 bs) n \<longleftrightarrow> n < 32 \<and> n div 8 < length bs \<and> bit (bs ! (n div 8)) (n mod 8)"
proof -
  have "bit (horner_sum uint (2 ^ 8) (take 4 bs)) n \<longleftrightarrow>
     n div 8 < length (take 4 bs) \<and> bit ((take 4 bs) ! (n div 8)) (n mod 8)"
    using bit_horner_sum_uint_exp_iff[of "take 4 bs" n] by simp
  then show ?thesis
    unfolding word_le32_def
    by (auto simp add: bit_word_of_int_iff less_mult_imp_div_less)
qed

lemma word_le32_le32_append [simp]: "word_le32 (le32 w @ rest) = w"
  apply (rule bit_eqI)
  apply (simp add: bit_word_le32)
  apply (auto simp: le32_def nth_append bit_ucast_iff bit_drop_bit_eq less_mult_imp_div_less
              dest: bit_imp_le_length)
  done

lemma word_le32_le32 [simp]: "word_le32 (le32 w) = w"
  using word_le32_le32_append[of w "[]"] by simp

text \<open>
  What the file-based pair does to the three scalar fields, for every filter, every
  content of the bytes after the fields and every receiving object: \<^verbatim>\<open>hash_num\<close>
  survives, \<^verbatim>\<open>random_seed\<close> becomes the four bytes that followed \<^verbatim>\<open>hash_num\<close> in
  the writer's object, and \<^verbatim>\<open>table_size\<close> becomes the writer's \<^verbatim>\<open>random_seed\<close>.
\<close>

lemma file_roundtrip_fields:
  assumes "WriteObject_file bf a1 a2 a3 = Some file"
  shows "hash_num (ReadObject_file R bf0 file) = hash_num bf
       \<and> random_seed (ReadObject_file R bf0 file) = a1
       \<and> table_size (ReadObject_file R bf0 file) = random_seed bf
       \<and> vec_salt (ReadObject_file R bf0 file) = GenUniqueSaltVector R (unat (hash_num bf)) a1"
  using assms
  by (auto simp add: WriteObject_file_def ReadObject_file_def fin_read_def Let_def
        split: if_splits prod.splits)

text \<open>The buffer-based pair does round-trip the fields and the table.\<close>

lemma buffer_roundtrip:
  assumes "WriteObject_buffer bf buffer = Some buffer'"
  shows "\<exists>bf'. ReadObject_buffer R bf0 buffer' = Some bf'
       \<and> hash_num bf' = hash_num bf \<and> random_seed bf' = random_seed bf
       \<and> table_size bf' = table_size bf
       \<and> bit_table bf' = take (unat (table_size bf) div 8) (bit_table bf)
       \<and> vec_salt bf' = GenUniqueSaltVector R (unat (hash_num bf)) (random_seed bf)"
  using assms
  by (auto simp add: WriteObject_buffer_def ReadObject_buffer_def Let_def split: if_splits)

text \<open>
  Claim C5: writing a filter with the file-based \<^verbatim>\<open>WriteObject\<close> and loading the
  bytes with the file-based \<^verbatim>\<open>ReadObject\<close> should restore \<^verbatim>\<open>hash_num\<close>,
  \<^verbatim>\<open>random_seed\<close>, \<^verbatim>\<open>table_size\<close>, the table and the salts. For the filter with
  \<open>hash_num = 2\<close>, \<open>random_seed = 7\<close>, \<open>table_size = 16\<close> and table \<open>[0xAB, 0xCD]\<close>,
  written from an object whose bytes after the three fields are zero and loaded into
  an empty object, the file is 26 bytes long and the loaded filter has
  \<open>random_seed = 0\<close>, \<open>table_size = 7\<close> and an empty table.
\<close>

theorem file_roundtrip_changes_filter:
  "WriteObject_file
      \<lparr>hash_num = 2, vec_salt = GenUniqueSaltVector (\<lambda>n s. []) 2 7, table_size = 16,
       bit_table = [0xAB, 0xCD], projected_element_num = 1, random_seed = 7,
       inserted_element_num = 0\<rparr> 0 0 0
     = Some [2, 0, 0, 0, 0, 0, 0, 0, 7, 0, 0, 0, 0, 0, 0, 0, 16, 0, 0, 0, 0, 0, 0, 0,
             0xAB, 0xCD]
   \<and> ReadObject_file (\<lambda>n s. [])
        \<lparr>hash_num = 0, vec_salt = [], table_size = 0, bit_table = [],
         projected_element_num = 0, random_seed = 0, inserted_element_num = 0\<rparr>
        [2, 0, 0, 0, 0, 0, 0, 0, 7, 0, 0, 0, 0, 0, 0, 0, 16, 0, 0, 0, 0, 0, 0, 0,
         0xAB, 0xCD]
     = \<lparr>hash_num = 2, vec_salt = GenUniqueSaltVector (\<lambda>n s. []) 2 0, table_size = 7,
        bit_table = [], projected_element_num = 0, random_seed = 0,
        inserted_element_num = 0\<rparr>"
  by code_simp

section \<open>Proofs: cwPRF-based private set intersection\<close>

lemma map_nth_upt: "length xs = n \<Longrightarrow> map (\<lambda>i. f (xs ! i)) [0..<n] = map f xs"
  by (auto intro: nth_equalityI)

lemma filter_index:
  "map (\<lambda>i. xs ! i) (filter (\<lambda>i. Q (xs ! i)) [0..<length xs]) = filter Q xs"
proof (induction xs rule: rev_induct)
  case Nil
  then show ?case by simp
next
  case (snoc x xs)
  have "map (\<lambda>i. (xs @ [x]) ! i) (filter (\<lambda>i. Q ((xs @ [x]) ! i)) [0..<length xs])
      = map (\<lambda>i. xs ! i) (filter (\<lambda>i. Q (xs ! i)) [0..<length xs])"
    by (intro map_cong filter_cong refl) (auto simp: nth_append)
  then show ?case using snoc by (simp add: nth_append)
qed

lemma truncate_point_trunc:
  assumes "TRUNCATE_LEN pp \<le> length point"
  shows "truncate_point pp point = trunc (TRUNCATE_LEN pp) point"
  using assms by (auto intro!: nth_equalityI simp: truncate_point_def trunc_def)

lemma psi_run_eq:
  assumes lX: "length vec_X = RECEIVER_ITEM_NUM pp" and lY: "length vec_Y = SENDER_ITEM_NUM pp"
    and t: "TRUNCATE_LEN pp \<le> 32" and p: "points_32 P"
  shows "psi_run P rnd_S rnd_R pp vec_X vec_Y =
     Finished ()
       (psi_output P (sender_key P rnd_S) (receiver_key P rnd_R) (TRUNCATE_LEN pp) vec_X vec_Y)
       (psi_transcript P (sender_key P rnd_S) (receiver_key P rnd_R) pp vec_X vec_Y)"
proof -
  have n8: "(8::nat) = Suc (Suc (Suc (Suc (Suc (Suc (Suc (Suc 0)))))))" by simp
  have T: "truncate_point pp (x25519_scalar_mulx P k q)
           = trunc (TRUNCATE_LEN pp) (x25519_scalar_mulx P k q)" for k q
    using p t by (intro truncate_point_trunc) (simp add: points_32_def)
  have A: "map (\<lambda>i. x25519_scalar_mulx P (sender_key P rnd_S)
                 (map (\<lambda>i. BlockToBytes P (vec_Y ! i) 32) [0..<SENDER_ITEM_NUM pp] ! i))
             [0..<SENDER_ITEM_NUM pp]
     = map (cwPRF P (sender_key P rnd_S)) vec_Y"
    using lY by (auto intro!: nth_equalityI simp: cwPRF_def)
  have B: "map (\<lambda>i. x25519_scalar_mulx P (receiver_key P rnd_R)
                 (map (\<lambda>i. BlockToBytes P (vec_X ! i) 32) [0..<RECEIVER_ITEM_NUM pp] ! i))
             [0..<RECEIVER_ITEM_NUM pp]
     = map (cwPRF P (receiver_key P rnd_R)) vec_X"
    using lX by (auto intro!: nth_equalityI simp: cwPRF_def)
  show ?thesis
    using lX lY t unfolding psi_run_def Send_def Receive_def Let_def n8 A B psi_output_def
    apply (simp add: psi_transcript_def map_nth_upt filter_index[of vec_X, symmetric] T)
    apply (rule arg_cong[where f="map ((!) vec_X)"])
    apply (rule filter_cong)
     apply simp
    apply (simp add: T)
    done
qed

lemma psi_output_intersection:
  assumes "x \<in> set vec_X" "x \<in> set vec_Y"
  shows "x \<in> set (psi_output P k k \<tau> vec_X vec_Y)"
  using assms by (auto simp: psi_output_def)



lemma sender_receiver_key_eq:
  "prg_deterministic P \<Longrightarrow> sender_key P rnd = receiver_key P rnd'"
  unfolding prg_deterministic_def sender_key_def receiver_key_def Let_def by metis

text \<open>
  Within the 32 bytes of a point the claim of C3 holds: the joint run finishes and
  \<^verbatim>\<open>Receive\<close> returns the elements \<open>x\<close> of \<open>X\<close>, in input order, whose
  \<open>trunc\<^sub>\<tau>(F\<^bsub>k1\<^esub>(F\<^bsub>k2\<^esub>(x)))\<close> is among the \<open>trunc\<^sub>\<tau>(F\<^bsub>k2\<^esub>(F\<^bsub>k1\<^esub>(y)))\<close>; with the keys
  of a deterministic generator every common element is among them.
\<close>

lemma psi_receive_output_within_point:
  assumes "length vec_X = RECEIVER_ITEM_NUM pp" "length vec_Y = SENDER_ITEM_NUM pp"
    and "TRUNCATE_LEN pp \<le> 32" and "points_32 P"
  shows "\<exists>tr. psi_run P rnd_S rnd_R pp vec_X vec_Y
            = Finished ()
                (psi_output P (sender_key P rnd_S) (receiver_key P rnd_R) (TRUNCATE_LEN pp)
                   vec_X vec_Y) tr"
    and "prg_deterministic P \<Longrightarrow> x \<in> set vec_X \<Longrightarrow> x \<in> set vec_Y \<Longrightarrow>
         x \<in> set (psi_output P (sender_key P rnd_S) (receiver_key P rnd_R) (TRUNCATE_LEN pp)
                    vec_X vec_Y)"
proof -
  show "\<exists>tr. psi_run P rnd_S rnd_R pp vec_X vec_Y
            = Finished ()
                (psi_output P (sender_key P rnd_S) (receiver_key P rnd_R) (TRUNCATE_LEN pp)
                   vec_X vec_Y) tr"
    using psi_run_eq[OF assms] by blast
next
  assume d: "prg_deterministic P" and x: "x \<in> set vec_X" "x \<in> set vec_Y"
  show "x \<in> set (psi_output P (sender_key P rnd_S) (receiver_key P rnd_R) (TRUNCATE_LEN pp)
                    vec_X vec_Y)"
    using psi_output_intersection[OF x] sender_receiver_key_eq[OF d, of rnd_S rnd_R] by simp
qed

text \<open>
  Claim C3 says that \<^verbatim>\<open>Receive\<close> returns the elements of \<open>X\<close> whose truncated value is
  among the sender's, for all inputs of the sizes of the public parameters. The public
  parameters \<^verbatim>\<open>Setup(128, 256, 1, 1)\<close> have the truncation length 33, and a point has 32
  bytes: with the inputs \<open>X = [1, 3]\<close> and \<open>Y = [3, 5]\<close>, of the sizes of these
  parameters, \<^verbatim>\<open>Send\<close> builds its strings from 33 bytes of the 32-byte array \<^verbatim>\<open>px\<close>, and
  the run has no defined result, whatever the primitives are.
\<close>

theorem psi_truncate_past_point:
  "TRUNCATE_LEN (Setup 128 256 1 1) = 33
   \<and> length [1, 3 :: block] = RECEIVER_ITEM_NUM (Setup 128 256 1 1)
   \<and> length [3, 5 :: block] = SENDER_ITEM_NUM (Setup 128 256 1 1)
   \<and> (\<exists>tr. psi_run P rnd_S rnd_R (Setup 128 256 1 1) [1, 3] [3, 5]
            = Faulted Undefined_behaviour tr)"
proof -
  have n8: "(8::nat) = Suc (Suc (Suc (Suc (Suc (Suc (Suc (Suc 0)))))))" by simp
  show ?thesis
    unfolding psi_run_def Send_def Receive_def n8
    by (simp add: Setup_def Let_def)
qed

text \<open>
  Claim C9: \<^verbatim>\<open>Send\<close> stops with the fatal exit, as its first action and so before any
  message is sent or received, if and only if the size of \<^verbatim>\<open>vec_Y\<close> differs from
  \<^verbatim>\<open>SENDER_ITEM_NUM\<close>; \<^verbatim>\<open>Receive\<close> does so if and only if the size of \<^verbatim>\<open>vec_X\<close>
  differs from \<^verbatim>\<open>RECEIVER_ITEM_NUM\<close>. No other fault is a first action of either.
\<close>

theorem psi_abort_iff_size_mismatch:
  "(Send P rnd_S pp vec_Y = Abort f
      \<longleftrightarrow> f = Exit_failure \<and> length vec_Y \<noteq> SENDER_ITEM_NUM pp)
   \<and> (Receive P rnd_R pp vec_X = Abort f
      \<longleftrightarrow> f = Exit_failure \<and> length vec_X \<noteq> RECEIVER_ITEM_NUM pp)"
  by (auto simp: Send_def Receive_def Let_def)





text \<open>
  The hypothesis is needed: with a generator that seeds itself from outside whatever the
  key, the two keys of a run differ.
\<close>

lemma psi_keys_need_determinism:
  "sender_key
      \<lparr>fixed_seed = 5, SetSeed = (\<lambda>rnd key counter. rnd),
       GenRandomBytes = (\<lambda>seed n. (replicate n (ucast seed), seed)),
       BlockToBytes = (\<lambda>b n. replicate n (ucast b)),
       x25519_scalar_mulx = (\<lambda>k p. map (\<lambda>i. k ! i + p ! i) [0..<32])\<rparr> (11 :: block)
   \<noteq> receiver_key
      \<lparr>fixed_seed = 5, SetSeed = (\<lambda>rnd key counter. rnd),
       GenRandomBytes = (\<lambda>seed n. (replicate n (ucast seed), seed)),
       BlockToBytes = (\<lambda>b n. replicate n (ucast b)),
       x25519_scalar_mulx = (\<lambda>k p. map (\<lambda>i. k ! i + p ! i) [0..<32])\<rparr> (22 :: block)"
  by (simp add: sender_key_def receiver_key_def)

section \<open>Proofs: NIZK proof of discrete-logarithm equality\<close>

lemma point_mul_add: "point_mul g (m + n) = point_mul g m + point_mul g n"
  by (induction m) (simp_all add: add.assoc)

lemma point_mul_mult: "point_mul g (m * n) = point_mul (point_mul g m) n"
  by (induction n) (simp_all add: point_mul_add)

lemma point_mul_mult': "point_mul g (m * n) = point_mul (point_mul g n) m"
  using point_mul_mult[of g n m] by (simp add: mult.commute)

lemma point_mul_zero [simp]: "point_mul 0 n = 0"
  by (induction n) simp_all

lemma point_mul_distrib: "point_mul (g + h) n = point_mul g n + point_mul h n"
  by (induction n) (simp_all add: algebra_simps)

lemma point_mul_mod:
  assumes "point_mul g q = 0"
  shows "point_mul g (n mod q) = point_mul g n"
proof -
  have "point_mul g n = point_mul g (q * (n div q) + n mod q)" by simp
  also have "\<dots> = point_mul (point_mul g q) (n div q) + point_mul g (n mod q)"
    by (simp only: point_mul_add point_mul_mult)
  finally show ?thesis using assms by simp
qed

lemma verify_accepts:
  assumes "instance_h1 inst = point_mul (instance_g1 inst) (witness_w wit)"
      "instance_h2 inst = point_mul (instance_g2 inst) (witness_w wit)"
      "point_mul (instance_g1 inst) order = 0" "point_mul (instance_g2 inst) order = 0"
  shows "fst (Verify tb H inst prefix (fst (Prove tb H order a inst wit prefix)))"
  using assms
  by (simp add: Verify_def Prove_def Let_def point_mul_mod point_mul_add point_mul_mult')

lemma has_order_0: "has_order g q \<Longrightarrow> point_mul g q = 0"
  by (simp add: has_order_def)

lemma has_order_le:
  assumes "has_order g q" "point_mul g m = point_mul g n" "m \<le> n"
  shows "q dvd n - m"
proof -
  have "point_mul g n = point_mul g (m + (n - m))" using assms(3) by simp
  also have "\<dots> = point_mul g m + point_mul g (n - m)" by (rule point_mul_add)
  finally have "point_mul g (n - m) = 0" using assms(2) by simp
  then show ?thesis using assms(1) by (simp add: has_order_def)
qed

lemma has_order_cong:
  assumes "has_order g q" "point_mul g m = point_mul g n"
  shows "m mod q = n mod q"
proof (cases "m \<le> n")
  case True
  then show ?thesis using has_order_le[OF assms True] mod_eq_dvd_iff_nat[of m n q] by simp
next
  case False
  then have "n \<le> m" by simp
  then show ?thesis using has_order_le[OF assms(1) assms(2)[symmetric]] mod_eq_dvd_iff_nat[of n m q] 
    by simp
qed

lemma verify_rejects:
  assumes h: "instance_h1 inst = point_mul (instance_g1 inst) (witness_w wit)"
      "instance_h2 inst = point_mul (instance_g2 inst) (witness_w wit)"
    and o: "has_order (instance_g1 inst) q" "has_order (instance_g2 inst) q"
    and e: "challenge tb H (inst\<lparr>instance_h2 := instance_h2 inst + instance_g2 inst\<rparr>) prefix
              (fst (Prove tb H q a inst wit prefix)) mod q \<noteq> 0"
  shows "\<not> fst (Verify tb H (inst\<lparr>instance_h2 := instance_h2 inst + instance_g2 inst\<rparr>) prefix
              (fst (Prove tb H q a inst wit prefix)))"
proof
  let ?inst' = "inst\<lparr>instance_h2 := instance_h2 inst + instance_g2 inst\<rparr>"
  let ?pf = "fst (Prove tb H q a inst wit prefix)"
  let ?e' = "challenge tb H ?inst' prefix ?pf"
  let ?w = "witness_w wit"
  define e0 where "e0 = H (snd (Prove tb H q a inst wit prefix))"
  assume acc: "fst (Verify tb H ?inst' prefix ?pf)"
  have z: "proof_z ?pf = (a + e0 * ?w) mod q" 
    by (simp add: Prove_def Let_def e0_def)
  have A1: "proof_A1 ?pf = point_mul (instance_g1 inst) a" and A2: "proof_A2 ?pf = point_mul (instance_g2 inst) a"
    by (simp_all add: Prove_def Let_def)
  from acc have V1: "point_mul (instance_g1 inst) (proof_z ?pf) = proof_A1 ?pf + point_mul (instance_h1 inst) ?e'"
    and V2: "point_mul (instance_g2 inst) (proof_z ?pf) = proof_A2 ?pf + point_mul (instance_h2 inst + instance_g2 inst) ?e'"
    by (simp_all add: Verify_def challenge_def Let_def)
  have "point_mul (instance_g1 inst) (a + e0 * ?w) = point_mul (instance_g1 inst) (a + ?w * ?e')"
    using V1 unfolding z A1 h
    by (simp add: point_mul_mod[OF has_order_0[OF o(1)]] point_mul_add point_mul_mult[symmetric])
  then have c1: "(a + e0 * ?w) mod q = (a + ?w * ?e') mod q"
    by (rule has_order_cong[OF o(1)])
  have "point_mul (instance_g2 inst) (a + e0 * ?w) = point_mul (instance_g2 inst) (a + ?w * ?e' + ?e')"
    using V2 unfolding z A2 h
    by (simp add: point_mul_mod[OF has_order_0[OF o(2)]] point_mul_add point_mul_mult[symmetric] point_mul_distrib add.assoc)
  then have c2: "(a + e0 * ?w) mod q = (a + ?w * ?e' + ?e') mod q"
    by (rule has_order_cong[OF o(2)])
  from c1 c2 have "(a + ?w * ?e') mod q = (a + ?w * ?e' + ?e') mod q" by simp
  then have "q dvd (a + ?w * ?e' + ?e') - (a + ?w * ?e')"
    using mod_eq_dvd_iff_nat[of "a + ?w * ?e'" "a + ?w * ?e' + ?e'" q] by simp
  then have "?e' mod q = 0" by simp
  with e show False by simp
qed


lemma point_mul_ring: "point_mul (g::'a::comm_ring_1) n = of_nat n * g"
  by (induction n) (simp_all add: algebra_simps)

lemma order_7: "point_mul (g::7) 7 = 0"
proof -
  have "(of_nat 7 :: 7) = 0"
    unfolding of_nat_eq_0_iff_char_dvd by simp
  then show ?thesis
    unfolding point_mul_ring by (simp only: mult_zero_left)
qed

lemma has_order_7_1: "has_order (1::7) 7"
  by (simp add: has_order_def point_mul_ring of_nat_eq_0_iff_char_dvd)

lemma has_order_7_3: "has_order (3::7) 7"
proof -
  have inv: "(3::7) * 5 = 1" by simp
  have "of_nat n * (3::7) = 0 \<longleftrightarrow> (of_nat n :: 7) = 0" for n
  proof
    assume "of_nat n * (3::7) = 0"
    then have "of_nat n * ((3::7) * 5) = 0" by (simp only: mult.assoc[symmetric] mult_zero_left)
    then show "(of_nat n :: 7) = 0" by (simp only: inv mult_1_right)
  qed simp
  then show ?thesis
    by (simp add: has_order_def point_mul_ring of_nat_eq_0_iff_char_dvd)
qed

text \<open>
  Claim C7, as amended. With \<open>q\<close> the order of the group (\<open>q\<close> times any point is the
  neutral element): for every instance \<open>(g1, h1, g2, h2)\<close> and witness \<open>w\<close> with
  \<open>h1 = g1\<^sup>w\<close> and \<open>h2 = g2\<^sup>w\<close>, every prefix and every random value of the prover,
  \<^verbatim>\<open>Verify\<close> accepts the proof \<^verbatim>\<open>Prove\<close> produces for the same instance and prefix.
  When \<open>h2\<close> is replaced by \<open>h2 \<cdot> g2\<close>, \<^verbatim>\<open>Verify\<close> rejects that proof provided
  \<open>g1\<close> and \<open>g2\<close> have order \<open>q\<close> and the challenge \<^verbatim>\<open>Verify\<close> computes for the
  altered instance is not a multiple of \<open>q\<close>.
\<close>

theorem dlog_equality_verify:
  fixes inst :: "'g::ab_group_add Instance"
  assumes "\<And>g::'g. point_mul g q = 0"
    and "instance_h1 inst = point_mul (instance_g1 inst) (witness_w wit)"
    and "instance_h2 inst = point_mul (instance_g2 inst) (witness_w wit)"
  shows "fst (Verify tb H inst prefix (fst (Prove tb H q a inst wit prefix)))
       \<and> (has_order (instance_g1 inst) q \<and> has_order (instance_g2 inst) q
          \<and> challenge tb H (inst\<lparr>instance_h2 := instance_h2 inst + instance_g2 inst\<rparr>) prefix
               (fst (Prove tb H q a inst wit prefix)) mod q \<noteq> 0
          \<longrightarrow> \<not> fst (Verify tb H
                     (inst\<lparr>instance_h2 := instance_h2 inst + instance_g2 inst\<rparr>) prefix
                     (fst (Prove tb H q a inst wit prefix))))"
  using verify_accepts[OF assms(2,3) assms(1) assms(1)] verify_rejects[OF assms(2,3)]
  by blast

theorem dlog_equality_verify_witness:
  "(\<forall>g::7. point_mul g 7 = 0)
   \<and> (2::7) = point_mul 1 2 \<and> (6::7) = point_mul 3 2
   \<and> has_order (1::7) 7 \<and> has_order (3::7) 7
   \<and> fst (Verify (\<lambda>g. ''P'') length
            \<lparr>instance_g1 = 1::7, instance_h1 = 2, instance_g2 = 3, instance_h2 = 6\<rparr> ''ab''
            (fst (Prove (\<lambda>g. ''P'') length 7 4
                   \<lparr>instance_g1 = 1, instance_h1 = 2, instance_g2 = 3, instance_h2 = 6\<rparr>
                   \<lparr>witness_w = 2\<rparr> ''ab'')))
   \<and> \<not> fst (Verify (\<lambda>g. ''P'') length
            \<lparr>instance_g1 = 1::7, instance_h1 = 2, instance_g2 = 3, instance_h2 = 6 + 3\<rparr> ''ab''
            (fst (Prove (\<lambda>g. ''P'') length 7 4
                   \<lparr>instance_g1 = 1, instance_h1 = 2, instance_g2 = 3, instance_h2 = 6\<rparr>
                   \<lparr>witness_w = 2\<rparr> ''ab'')))"
proof -
  have o: "\<And>g::7. point_mul g 7 = 0" by (rule order_7)
  have h1: "instance_h1 \<lparr>instance_g1 = 1::7, instance_h1 = 2, instance_g2 = 3, instance_h2 = 6\<rparr>
      = point_mul (instance_g1 \<lparr>instance_g1 = 1::7, instance_h1 = 2, instance_g2 = 3,
                                instance_h2 = 6\<rparr>) (witness_w \<lparr>witness_w = 2\<rparr>)"
    by (simp add: point_mul_ring)
  have h2: "instance_h2 \<lparr>instance_g1 = 1::7, instance_h1 = 2, instance_g2 = 3, instance_h2 = 6\<rparr>
      = point_mul (instance_g2 \<lparr>instance_g1 = 1::7, instance_h1 = 2, instance_g2 = 3,
                                instance_h2 = 6\<rparr>) (witness_w \<lparr>witness_w = 2\<rparr>)"
    by (simp add: point_mul_ring)
  have e: "challenge (\<lambda>g. ''P'') length
             \<lparr>instance_g1 = 1::7, instance_h1 = 2, instance_g2 = 3, instance_h2 = 6 + 3\<rparr> ''ab''
             (fst (Prove (\<lambda>g. ''P'') length 7 4
                   \<lparr>instance_g1 = 1, instance_h1 = 2, instance_g2 = 3, instance_h2 = 6\<rparr>
                   \<lparr>witness_w = 2\<rparr> ''ab'')) mod 7 \<noteq> 0"
    by (simp add: challenge_def Verify_def Let_def)
  show ?thesis
    using dlog_equality_verify[OF o h1 h2, of "\<lambda>g. ''P''" length "''ab''" 4]
      has_order_7_1 has_order_7_3 e o
    by (simp add: point_mul_ring)
qed

text \<open>
  Claim C7 as stated has \<^verbatim>\<open>Verify\<close> reject whenever \<open>h2\<close> is replaced by \<open>h2 \<cdot> g2\<close>.
  In the group of order 7: when \<open>g2\<close> is the neutral element the altered instance is the
  instance itself and the proof is accepted, whatever the serialisation, the hash, the
  prefix and the prover's random value; and for \<open>g1 = 1\<close>, \<open>g2 = 3\<close> of order 7 the
  proof is accepted on the altered instance when the hash value is 0.
\<close>

theorem dlog_equality_altered_accepted:
  "(\<forall>tb H a prefix.
      fst (Verify tb H
            \<lparr>instance_g1 = 1::7, instance_h1 = point_mul 1 2, instance_g2 = 0,
             instance_h2 = point_mul 0 2 + 0\<rparr> prefix
            (fst (Prove tb H 7 a
                   \<lparr>instance_g1 = 1, instance_h1 = point_mul 1 2, instance_g2 = 0,
                    instance_h2 = point_mul 0 2\<rparr>
                   \<lparr>witness_w = 2\<rparr> prefix))))
   \<and> (\<forall>tb a prefix.
      fst (Verify tb (\<lambda>s. 0)
            \<lparr>instance_g1 = 1::7, instance_h1 = point_mul 1 2, instance_g2 = 3,
             instance_h2 = point_mul 3 2 + 3\<rparr> prefix
            (fst (Prove tb (\<lambda>s. 0) 7 a
                   \<lparr>instance_g1 = 1, instance_h1 = point_mul 1 2, instance_g2 = 3,
                    instance_h2 = point_mul 3 2\<rparr>
                   \<lparr>witness_w = 2\<rparr> prefix))))"
  by (simp add: Verify_def Prove_def Let_def point_mul_mod[OF order_7] point_mul_add
        point_mul_mult')

section \<open>Proofs: bit-matrix transpose\<close>

subsection \<open>The register operations, bit by bit\<close>

lemma block_bytes_set_b: "block_bytes (set_b x i v) = (block_bytes x)[i := v]"
  by (simp add: set_b_def)

lemma bit_block_bytes:
  "k < 16 \<Longrightarrow> bit (block_bytes x ! k) b \<longleftrightarrow> b < 8 \<and> bit x (8 * k + b)"
  by (auto simp add: block_bytes_def bit_ucast_iff bit_drop_bit_eq)

lemma bit_slli:
  "bit (mm_slli_epi64 x s) n \<longleftrightarrow> n < 128 \<and> s \<le> n mod 64 \<and> bit x (n - s)"
proof (cases "n < 64")
  case True
  then show ?thesis
    by (auto simp add: mm_slli_epi64_def lane_hi_def lane_lo_def bit_word_cat_iff bit_push_bit_iff
        bit_ucast_iff bit_drop_bit_eq)
next
  case False
  then have n: "n mod 64 = n - 64" if "n < 128" using that
    by (simp add: mod_if)
  have m: "64 + (n - 64 - s) = n - s" if "s \<le> n - 64" using that False by simp
  show ?thesis using False n
    by (auto simp add: mm_slli_epi64_def lane_hi_def lane_lo_def bit_word_cat_iff bit_push_bit_iff
        bit_ucast_iff bit_drop_bit_eq m dest: bit_imp_le_length)
qed

lemma bit_low_byte_movemask:
  "bit (low_byte (mm_movemask_epi8 x)) b \<longleftrightarrow> b < 8 \<and> bit x (8 * b + 7)"
  by (auto simp add: low_byte_def mm_movemask_epi8_def bit_word_of_int_iff bit_horner_sum_bit_iff)

lemma bit_high_byte_movemask:
  "bit (high_byte (mm_movemask_epi8 x)) b \<longleftrightarrow> b < 8 \<and> bit x (8 * (b + 8) + 7)"
  by (auto simp add: high_byte_def mm_movemask_epi8_def bit_word_of_int_iff bit_horner_sum_bit_iff
      bit_drop_bit_eq add.commute)

lemma bit_byte_of_bits: "bit (byte_of_bits f) b \<longleftrightarrow> b < 8 \<and> f b"
  by (auto simp add: byte_of_bits_def bit_horner_sum_bit_iff dest: bit_imp_le_length)

lemma mod64_sub: "b \<le> n mod 64 \<Longrightarrow> (n - b) mod 64 = n mod 64 - (b::nat)"
proof -
  assume b: "b \<le> n mod 64"
  have n: "n = 64 * (n div 64) + n mod 64" by simp
  have "n - b = 64 * (n div 64) + (n mod 64 - b)" using b n by linarith
  moreover have "n mod 64 - b < 64" using mod_less_divisor[of 64 n] by linarith
  ultimately show ?thesis
    by (metis mod_mult_self4 mod_less)
qed

lemma slli_slli: "mm_slli_epi64 (mm_slli_epi64 x a) b = mm_slli_epi64 x (a + b)"
proof (rule bit_eqI)
  fix n
  show "bit (mm_slli_epi64 (mm_slli_epi64 x a) b) n = bit (mm_slli_epi64 x (a + b)) n"
  proof (cases "b \<le> n mod 64")
    case True
    have "n - b - a = n - (a + b)" by simp
    have c: "(a \<le> n mod 64 - b) = (a + b \<le> n mod 64)" using True by linarith
    have d: "n < 128 \<Longrightarrow> n - b < 128" by simp
    show ?thesis using mod64_sub[OF True] True c d
      by (auto simp add: bit_slli add.commute)
  next
    case False
    then show ?thesis by (simp add: bit_slli)
  qed
qed

lemma slli_0: "mm_slli_epi64 x 0 = x"
  by (rule bit_eqI) (auto simp add: bit_slli dest: bit_imp_le_length)

lemma mod64_top: "(8 * m + 7) mod 64 = 8 * (m mod 8) + (7::nat)"
proof -
  have "(8 * m + 7) mod (8 * 8 :: nat) = 8 * (((8 * m + 7) div 8) mod 8) + (8 * m + 7) mod 8"
    by (simp only: mod_mult2_eq)
  then show ?thesis by simp
qed

lemma bit_shifted_top:
  assumes "n \<le> 7" "m < 16"
  shows "bit (mm_slli_epi64 x n) (8 * m + 7) \<longleftrightarrow> bit x (8 * m + 7 - n)"
  using assms by (simp add: bit_slli mod64_top)

lemma xor7_low: "i < 8 \<Longrightarrow> i XOR 7 = 7 - (i::nat)"
proof -
  assume "i < 8"
  then have "i \<in> {0,1,2,3,4,5,6,7}" by auto
  then show ?thesis by auto
qed

lemma xor7_high: "8 \<le> i \<Longrightarrow> i < 16 \<Longrightarrow> i XOR 7 = 23 - (i::nat)"
proof -
  assume "8 \<le> i" "i < 16"
  then have "i \<in> {8,9,10,11,12,13,14,15}" by auto
  then show ?thesis by auto
qed

lemma fold_ub_append:
  "fold_ub f (xs @ ys) s = (case fold_ub f xs s of Inl e \<Rightarrow> Inl e | Inr s' \<Rightarrow> fold_ub f ys s')"
  by (induction xs arbitrary: s) (auto split: sum.splits)

lemma cdiv8_nat: "cdiv8 (int n) = int (n div 8)"
  by (simp add: cdiv8_def zdiv_int)

lemma int_ok_nat: "int_ok (int n) \<longleftrightarrow> n < 2 ^ 31"
  by (simp add: int_ok_def) 

lemma INP_index_nat:
  assumes "shape_ok R C" "x < R" "y < C"
  shows "INP_index (int C) (int x) (int y) = Inr (int (x * (C div 8) + y div 8))"
proof -
  have C8: "C = 8 * (C div 8)" using assms(1) by (auto simp: shape_ok_def)
  have "x * C + C \<le> R * C" using assms(2)
    by (metis Suc_leI mult_Suc mult_le_mono1 add.commute)
  then have xc: "x * C < 2 ^ 31" "C \<le> 2 ^ 31" using assms by (auto simp: shape_ok_def)
  have d: "x * C div 8 = x * (C div 8)" using C8
    by (metis mult.left_commute nonzero_mult_div_cancel_left zero_neq_numeral)
  have "x * C div 8 + y div 8 < 2 ^ 31" using xc assms(3) by linarith
  have "0 < C" using assms(3) by simp
  then have "x \<le> x * C" by simp
  then have xy: "x < 2 ^ 31" "y < 2 ^ 31" using xc assms(3) by linarith+
  then show ?thesis
    using xc xy \<open>x * C div 8 + y div 8 < 2 ^ 31\<close> d
    unfolding INP_index_def
    by (simp add: int_ok_nat cdiv8_nat of_nat_mult[symmetric] of_nat_add[symmetric] del: of_nat_mult of_nat_add)
qed

lemma OUT_index_nat:
  assumes "shape_ok R C" "x < R" "y < C"
  shows "OUT_index (int R) (int x) (int y) = Inr (int (y * (R div 8) + x div 8))"
proof -
  have s: "shape_ok C R" using assms(1) by (simp add: shape_ok_def mult.commute)
  have "OUT_index (int R) (int x) (int y) = INP_index (int R) (int y) (int x)"
    by (auto simp add: OUT_index_def INP_index_def)
  then show ?thesis using INP_index_nat[OF s assms(3,2)] by simp
qed

lemma divmod_eq: "r < nb \<Longrightarrow> (j = q * nb + r) = (j div nb = q \<and> j mod nb = (r::nat))"
  by (metis div_mult_self3 div_less add_cancel_left_right mod_mult_self3 mod_less 
        mult.commute div_mult_mod_eq bot_nat_0.not_eq_extremum less_nat_zero_code)

lemma index_bound:
  assumes "shape_ok R C" "x < R" "y < C"
  shows "x * (C div 8) + y div 8 < R * C div 8"
proof -
  have C8: "C = 8 * (C div 8)" using assms(1) by (auto simp: shape_ok_def)
  have y: "y div 8 < C div 8" using assms(3) C8 by linarith
  have "x * (C div 8) + y div 8 < (x + 1) * (C div 8)" using y by simp
  also have "\<dots> \<le> R * (C div 8)" using assms(2) by (intro mult_le_mono1) simp
  also have "\<dots> = R * C div 8" using C8
    by (metis mult.left_commute nonzero_mult_div_cancel_left zero_neq_numeral)
  finally show ?thesis .
qed

lemma read_u8_nat: "k < length buf \<Longrightarrow> read_u8 buf (int k) = Inr (buf ! k)"
  by (simp add: read_u8_def)

lemma read_u16_nat:
  "k + 1 < length buf \<Longrightarrow> read_u16 buf (int k) = Inr (buf ! k, buf ! (k + 1))"
  by (simp add: read_u16_def)

lemma write_u8_nat: "k < length buf \<Longrightarrow> write_u8 buf (int k) v = Inr (buf[k := v])"
  by (simp add: write_u8_def)

lemma write_u16_nat:
  "k + 1 < length buf \<Longrightarrow> write_u16 buf (int k) lo hi = Inr (buf[k := lo, k + 1 := hi])"
  by (simp add: write_u16_def)

lemma gather_16x8_fold:
  assumes "shape_ok R C" "length inp = R * C div 8" "cc < C"
    "\<forall>i\<in>set js. i < 16 \<and> rr + (i XOR 7) < R"
  shows "\<exists>tmp'. fold_ub (gather_16x8 inp (int C) (int rr) (int cc)) js tmp = Inr tmp' \<and>
        (\<forall>m<16. block_bytes tmp' ! m =
            (if m \<in> set js then inp ! ((rr + (m XOR 7)) * (C div 8) + cc div 8)
             else block_bytes tmp ! m))"
  using assms(4)
proof (induction js arbitrary: tmp)
  case Nil
  then show ?case by simp
next
  case (Cons i js)
  let ?k = "(rr + (i XOR 7)) * (C div 8) + cc div 8"
  have i: "i < 16" "rr + (i XOR 7) < R" using Cons.prems by auto
  have idx: "INP_index (int C) (int rr + II i) (int cc) = Inr (int ?k)"
    using INP_index_nat[OF assms(1) i(2) assms(3)] by (simp add: II_def)
  have rd: "read_u8 inp (int ?k) = Inr (inp ! ?k)"
    using index_bound[OF assms(1) i(2) assms(3)] assms(2) by (intro read_u8_nat) simp
  have step: "gather_16x8 inp (int C) (int rr) (int cc) i tmp = Inr (set_b tmp i (inp ! ?k))"
    by (simp add: gather_16x8_def idx rd del: of_nat_add of_nat_mult)
  from Cons.IH[of "set_b tmp i (inp ! ?k)"] Cons.prems
  obtain tmp' where t: "fold_ub (gather_16x8 inp (int C) (int rr) (int cc)) js (set_b tmp i (inp ! ?k)) = Inr tmp'"
     "\<forall>m<16. block_bytes tmp' ! m =
            (if m \<in> set js then inp ! ((rr + (m XOR 7)) * (C div 8) + cc div 8)
             else block_bytes (set_b tmp i (inp ! ?k)) ! m)" by auto
  show ?case using step t i(1)
    by (auto simp add: block_bytes_set_b nth_list_update)
qed

lemma II_rev: "n < 8 \<Longrightarrow> II (7 - n) = int n"
  by (simp add: II_def xor7_low)

lemma scatter_16x8_fold:
  assumes s: "shape_ok R C" and l: "length out = R * C div 8"
    and rr: "rr + 16 \<le> R" "rr mod 8 = 0" and cc: "cc + 8 \<le> C" and n: "n \<le> 8"
  shows "\<exists>out'. fold_ub (scatter_16x8 (int R) (int rr) (int cc)) (map (\<lambda>c. 7 - c) [0..<n]) (tmp, out)
           = Inr (mm_slli_epi64 tmp n, out') \<and> length out' = length out \<and>
        (\<forall>k<length out. out' ! k =
           (if cc \<le> k div (R div 8) \<and> k div (R div 8) < cc + n 
               \<and> (k mod (R div 8) = rr div 8 \<or> k mod (R div 8) = rr div 8 + 1)
            then (if k mod (R div 8) = rr div 8
                  then low_byte (mm_movemask_epi8 (mm_slli_epi64 tmp (k div (R div 8) - cc)))
                  else high_byte (mm_movemask_epi8 (mm_slli_epi64 tmp (k div (R div 8) - cc))))
            else out ! k))"
  using n
proof (induction n)
  case 0
  then show ?case by (auto simp add: slli_0)
next
  case (Suc n)
  let ?nb = "R div 8" and ?rb = "rr div 8"
  let ?f = "scatter_16x8 (int R) (int rr) (int cc)"
  from Suc obtain out1 where o1:
    "fold_ub ?f (map (\<lambda>c. 7 - c) [0..<n]) (tmp, out) = Inr (mm_slli_epi64 tmp n, out1)"
    "length out1 = length out"
    "\<forall>k<length out. out1 ! k =
           (if cc \<le> k div ?nb \<and> k div ?nb < cc + n 
               \<and> (k mod ?nb = ?rb \<or> k mod ?nb = ?rb + 1)
            then (if k mod ?nb = ?rb
                  then low_byte (mm_movemask_epi8 (mm_slli_epi64 tmp (k div ?nb - cc)))
                  else high_byte (mm_movemask_epi8 (mm_slli_epi64 tmp (k div ?nb - cc))))
            else out ! k)" by auto
  have n8: "n < 8" using Suc.prems by simp
  have R8: "R = 8 * ?nb" and rr8: "rr = 8 * ?rb" using s rr(2) by (auto simp: shape_ok_def)
  have rb: "?rb + 1 < ?nb" using rr(1) R8 rr8 by linarith
  let ?k = "(cc + n) * ?nb + ?rb"
  have x: "rr < R" "cc + n < C" using rr(1) cc n8 by auto
  have idx: "OUT_index (int R) (int rr) (int cc + II (7 - n)) = Inr (int ?k)"
    using OUT_index_nat[OF s x] n8 by (simp add: II_rev)
  have "(cc + n) * ?nb + ?nb \<le> C * ?nb" using x(2)
    by (metis Suc_leI mult_Suc mult_le_mono1 add.commute)
  moreover have "C * ?nb = R * C div 8" using R8 
    by (metis mult.commute mult.left_commute nonzero_mult_div_cancel_left zero_neq_numeral)
  ultimately have kb: "?k + 1 < length out1" using rb l o1(2) by linarith
  let ?h = "mm_movemask_epi8 (mm_slli_epi64 tmp n)"
  let ?out2 = "out1[?k := low_byte ?h, ?k + 1 := high_byte ?h]"
  have step: "?f (7 - n) (mm_slli_epi64 tmp n, out1) = Inr (mm_slli_epi64 tmp (Suc n), ?out2)"
    using write_u16_nat[OF kb]
    by (simp add: scatter_16x8_def idx Let_def slli_slli del: of_nat_add of_nat_mult)
  have fold: "fold_ub ?f (map (\<lambda>c. 7 - c) [0..<Suc n]) (tmp, out) = Inr (mm_slli_epi64 tmp (Suc n), ?out2)"
    by (simp add: fold_ub_append o1(1) step)
  have k0: "\<And>j. (j = ?k) = (j div ?nb = cc + n \<and> j mod ?nb = ?rb)"
    using divmod_eq[of ?rb ?nb _ "cc + n"] rb by simp
  have k1: "\<And>j. (j = ?k + 1) = (j div ?nb = cc + n \<and> j mod ?nb = ?rb + 1)"
    using divmod_eq[of "?rb + 1" ?nb _ "cc + n"] rb by simp
  have "\<forall>j<length out. ?out2 ! j =
           (if cc \<le> j div ?nb \<and> j div ?nb < cc + Suc n 
               \<and> (j mod ?nb = ?rb \<or> j mod ?nb = ?rb + 1)
            then (if j mod ?nb = ?rb
                  then low_byte (mm_movemask_epi8 (mm_slli_epi64 tmp (j div ?nb - cc)))
                  else high_byte (mm_movemask_epi8 (mm_slli_epi64 tmp (j div ?nb - cc))))
            else out ! j)"
  proof (intro allI impI)
    fix j assume j: "j < length out"
    consider (a) "j = ?k" | (b) "j = ?k + 1" | (c) "j \<noteq> ?k" "j \<noteq> ?k + 1" by blast
    then show "?out2 ! j =
           (if cc \<le> j div ?nb \<and> j div ?nb < cc + Suc n 
               \<and> (j mod ?nb = ?rb \<or> j mod ?nb = ?rb + 1)
            then (if j mod ?nb = ?rb
                  then low_byte (mm_movemask_epi8 (mm_slli_epi64 tmp (j div ?nb - cc)))
                  else high_byte (mm_movemask_epi8 (mm_slli_epi64 tmp (j div ?nb - cc))))
            else out ! j)"
    proof cases
      case a
      then have "j div ?nb = cc + n" "j mod ?nb = ?rb" using k0 by auto
      then show ?thesis using a kb by simp
    next
      case b
      then have "j div ?nb = cc + n" "j mod ?nb = ?rb + 1" using k1 by auto
      then show ?thesis using b kb by simp
    next
      case c
      then have "?out2 ! j = out1 ! j" by simp
      moreover have "\<not> (j div ?nb = cc + n \<and> (j mod ?nb = ?rb \<or> j mod ?nb = ?rb + 1))"
        using c k0 k1 by auto
      ultimately show ?thesis using o1(3) j by (auto simp: less_Suc_eq)
    qed
  qed
  then show ?case using fold o1(2) by simp
qed

lemma rev_upt8: "rev [0..<8] = map (\<lambda>c. 7 - c) [0..<8]"
  by (simp add: upt_rec)

lemma bit_tmp_byte:
  assumes "m < 16" "c < 8"
  shows "bit (mm_slli_epi64 tmp c) (8 * m + 7) \<longleftrightarrow> bit (block_bytes tmp ! m) (7 - c)"
proof -
  have e: "8 * m + 7 - c = 8 * m + (7 - c)" using assms(2) by simp
  have "bit (mm_slli_epi64 tmp c) (8 * m + 7) \<longleftrightarrow> bit tmp (8 * m + 7 - c)"
    using assms by (intro bit_shifted_top) auto
  also have "\<dots> \<longleftrightarrow> bit (block_bytes tmp ! m) (7 - c)"
  proof -
    have l: "7 - c < 8" by arith
    show ?thesis
      using bit_block_bytes[OF assms(1), of tmp "7 - c"] l unfolding e by blast
  qed
  finally show ?thesis .
qed

lemma low_byte_transposed:
  assumes cc: "cc mod 8 = 0" and c: "c < 8" and rr: "rr mod 8 = 0"
    and k: "k div (R div 8) = cc + c" "k mod (R div 8) = rr div 8"
    and t: "\<forall>m<8. block_bytes tmp ! m = inp ! ((rr + (m XOR 7)) * (C div 8) + cc div 8)"
  shows "low_byte (mm_movemask_epi8 (mm_slli_epi64 tmp c)) = transposed_byte inp R C k"
proof (rule bit_eqI)
  fix b
  have d: "(cc + c) div 8 = cc div 8" "(cc + c) mod 8 = c" using cc c by auto
  have r: "8 * (rr div 8) = rr" using rr by auto
  show "bit (low_byte (mm_movemask_epi8 (mm_slli_epi64 tmp c))) b = bit (transposed_byte inp R C k) b"
  proof (cases "b < 8")
    case True
    then have "8 * (rr div 8) + 7 - b = rr + (b XOR 7)" using r by (simp add: xor7_low)
    then show ?thesis using True c t k d
      by (simp add: bit_low_byte_movemask bit_tmp_byte transposed_byte_def bit_byte_of_bits mbit_def)
  next
    case False
    then show ?thesis by (simp add: bit_low_byte_movemask transposed_byte_def bit_byte_of_bits)
  qed
qed

lemma high_byte_transposed:
  assumes cc: "cc mod 8 = 0" and c: "c < 8" and rr: "rr mod 8 = 0"
    and k: "k div (R div 8) = cc + c" "k mod (R div 8) = rr div 8 + 1"
    and t: "\<forall>m<16. block_bytes tmp ! m = inp ! ((rr + (m XOR 7)) * (C div 8) + cc div 8)"
  shows "high_byte (mm_movemask_epi8 (mm_slli_epi64 tmp c)) = transposed_byte inp R C k"
proof (rule bit_eqI)
  fix b
  have d: "(cc + c) div 8 = cc div 8" "(cc + c) mod 8 = c" using cc c by auto
  have r: "8 * (rr div 8) = rr" using rr by auto
  show "bit (high_byte (mm_movemask_epi8 (mm_slli_epi64 tmp c))) b = bit (transposed_byte inp R C k) b"
  proof (cases "b < 8")
    case True
    then have e: "8 * (rr div 8 + 1) + 7 - b = rr + ((b + 8) XOR 7)" using r by (simp add: xor7_high)
    have "bit (high_byte (mm_movemask_epi8 (mm_slli_epi64 tmp c))) b
        = bit (mm_slli_epi64 tmp c) (8 * (b + 8) + 7)"
      using True by (simp only: bit_high_byte_movemask simp_thms)
    also have "\<dots> = bit (block_bytes tmp ! (b + 8)) (7 - c)"
      using True c by (intro bit_tmp_byte) auto
    also have "\<dots> = bit (inp ! ((rr + ((b + 8) XOR 7)) * (C div 8) + cc div 8)) (7 - c)"
      using t True by simp
    also have "\<dots> = bit (transposed_byte inp R C k) b"
      using True k d e by (simp add: transposed_byte_def bit_byte_of_bits mbit_def)
    finally show ?thesis .
  next
    case False
    then show ?thesis by (simp add: bit_high_byte_movemask transposed_byte_def bit_byte_of_bits)
  qed
qed

lemma tile_16x8_correct:
  assumes s: "shape_ok R C" and li: "length inp = R * C div 8" and lo: "length out = R * C div 8"
    and rr: "rr + 16 \<le> R" "rr mod 8 = 0" and cc: "cc + 8 \<le> C" "cc mod 8 = 0"
  shows "\<exists>tmp' out'. tile_16x8 inp (int R) (int C) (int rr) (int cc) (tmp, out) = Inr (tmp', out')
        \<and> length out' = length out \<and>
        (\<forall>k<length out. out' ! k =
           (if cc \<le> k div (R div 8) \<and> k div (R div 8) < cc + 8
               \<and> (k mod (R div 8) = rr div 8 \<or> k mod (R div 8) = rr div 8 + 1)
            then transposed_byte inp R C k else out ! k))"
proof -
  have "\<forall>i\<in>set [0..<16]. i < 16 \<and> rr + (i XOR 7) < R"
  proof
    fix i :: nat assume "i \<in> set [0..<16]"
    then have i: "i < 16" by simp
    then have "i XOR 7 < 16" by (cases "i < 8") (simp_all add: xor7_low xor7_high)
    then show "i < 16 \<and> rr + (i XOR 7) < R" using i rr(1) by simp
  qed
  from gather_16x8_fold[OF s li _ this, of cc tmp] cc(1)
  obtain t1 where t1: "fold_ub (gather_16x8 inp (int C) (int rr) (int cc)) [0..<16] tmp = Inr t1"
     "\<forall>m<16. block_bytes t1 ! m = inp ! ((rr + (m XOR 7)) * (C div 8) + cc div 8)"
    by auto
  from scatter_16x8_fold[OF s lo rr cc(1), of 8 t1]
  obtain out' where o: "fold_ub (scatter_16x8 (int R) (int rr) (int cc)) (rev [0..<8]) (t1, out)
           = Inr (mm_slli_epi64 t1 8, out')" "length out' = length out"
        "\<forall>k<length out. out' ! k =
           (if cc \<le> k div (R div 8) \<and> k div (R div 8) < cc + 8 
               \<and> (k mod (R div 8) = rr div 8 \<or> k mod (R div 8) = rr div 8 + 1)
            then (if k mod (R div 8) = rr div 8
                  then low_byte (mm_movemask_epi8 (mm_slli_epi64 t1 (k div (R div 8) - cc)))
                  else high_byte (mm_movemask_epi8 (mm_slli_epi64 t1 (k div (R div 8) - cc))))
            else out ! k)"
    unfolding rev_upt8 by auto
  have tile: "tile_16x8 inp (int R) (int C) (int rr) (int cc) (tmp, out) = Inr (mm_slli_epi64 t1 8, out')"
    by (simp add: tile_16x8_def t1(1) o(1))
  have "\<forall>k<length out. out' ! k =
           (if cc \<le> k div (R div 8) \<and> k div (R div 8) < cc + 8
               \<and> (k mod (R div 8) = rr div 8 \<or> k mod (R div 8) = rr div 8 + 1)
            then transposed_byte inp R C k else out ! k)"
  proof (intro allI impI)
    fix k assume k: "k < length out"
    show "out' ! k =
           (if cc \<le> k div (R div 8) \<and> k div (R div 8) < cc + 8
               \<and> (k mod (R div 8) = rr div 8 \<or> k mod (R div 8) = rr div 8 + 1)
            then transposed_byte inp R C k else out ! k)"
    proof (cases "cc \<le> k div (R div 8) \<and> k div (R div 8) < cc + 8
               \<and> (k mod (R div 8) = rr div 8 \<or> k mod (R div 8) = rr div 8 + 1)")
      case True
      define c where "c = k div (R div 8) - cc"
      have c: "c < 8" "k div (R div 8) = cc + c" using True by (auto simp: c_def)
      show ?thesis
      proof (cases "k mod (R div 8) = rr div 8")
        case T2: True
        have "out' ! k = low_byte (mm_movemask_epi8 (mm_slli_epi64 t1 c))"
          using o(3) k True T2 by (simp add: c_def)
        also have "\<dots> = transposed_byte inp R C k"
          using t1(2) by (intro low_byte_transposed[OF cc(2) c(1) rr(2) c(2) T2]) simp
        finally show ?thesis using True by simp
      next
        case F2: False
        then have k1: "k mod (R div 8) = rr div 8 + 1" using True by auto
        have "out' ! k = high_byte (mm_movemask_epi8 (mm_slli_epi64 t1 c))"
          using o(3) k True F2 by (simp add: c_def)
        also have "\<dots> = transposed_byte inp R C k"
          by (rule high_byte_transposed[OF cc(2) c(1) rr(2) c(2) k1 t1(2)])
        finally show ?thesis using True by simp
      qed
    next
      case False
      then show ?thesis using o(3) k by auto
    qed
  qed
  then show ?thesis using tile o(2) by blast
qed

lemma shape_C_bound: "shape_ok R C \<Longrightarrow> 8 \<le> R \<Longrightarrow> C \<le> 2 ^ 28"
proof -
  assume s: "shape_ok R C" and r: "8 \<le> R"
  have a: "8 * C \<le> R * C" using r by (rule mult_le_mono1)
  have b: "R * C \<le> 2147483648" using s by (simp add: shape_ok_def)
  have "8 * C \<le> 2147483648" using a b by (rule order_trans)
  then show ?thesis by simp
qed

lemma mult8_step: "(a::nat) mod 8 = 0 \<Longrightarrow> b mod 8 = 0 \<Longrightarrow> a < b \<Longrightarrow> a + 8 \<le> b"
  by presburger

lemma mult16_step:
  assumes "(a::nat) mod 16 = 0" "a + 16 > b" "a \<le> b"
  shows "a = b - b mod 16"
proof -
  obtain d where d: "b = a + d" "d < 16"
    using assms(2,3) by (metis add_less_cancel_left le_Suc_ex)
  have "b mod 16 = d"
    unfolding d(1) using assms(1) d(2) by (simp add: mod_add_left_eq[symmetric])
  then show ?thesis using d(1) by simp
qed

lemma cols_16x8_correct:
  assumes s: "shape_ok R C" and li: "length inp = R * C div 8"
    and rr: "rr + 16 \<le> R" "rr mod 8 = 0"
  shows "length out = R * C div 8 \<Longrightarrow> cc mod 8 = 0 \<Longrightarrow> cc \<le> C \<Longrightarrow>
     \<exists>tmp' out'. cols_16x8 inp (int R) (int C) (int rr) (int cc) (tmp, out) = Inr (tmp', out')
        \<and> length out' = length out \<and>
        (\<forall>k<length out. out' ! k =
           (if cc \<le> k div (R div 8)
               \<and> (k mod (R div 8) = rr div 8 \<or> k mod (R div 8) = rr div 8 + 1)
            then transposed_byte inp R C k else out ! k))"
proof (induction "C - cc" arbitrary: cc tmp out rule: less_induct)
  case less
  let ?nb = "R div 8"
  have C8: "C mod 8 = 0" and R8: "R = 8 * ?nb" using s by (auto simp: shape_ok_def)
  show ?case
  proof (cases "cc < C")
    case True
    have cc8: "cc + 8 \<le> C" using mult8_step[OF less.prems(2) C8 True] .
    from tile_16x8_correct[OF s li less.prems(1) rr cc8 less.prems(2), of tmp]
    obtain t1 o1 where t: "tile_16x8 inp (int R) (int C) (int rr) (int cc) (tmp, out) = Inr (t1, o1)"
      "length o1 = length out"
      "\<forall>k<length out. o1 ! k =
           (if cc \<le> k div ?nb \<and> k div ?nb < cc + 8
               \<and> (k mod ?nb = rr div 8 \<or> k mod ?nb = rr div 8 + 1)
            then transposed_byte inp R C k else out ! k)" by blast
    have "C - (cc + 8) < C - cc" using True by simp
    from less.hyps[OF this, of o1 t1] t(2) less.prems cc8
    obtain t2 o2 where u: "cols_16x8 inp (int R) (int C) (int rr) (int (cc + 8)) (t1, o1) = Inr (t2, o2)"
      "length o2 = length o1"
      "\<forall>k<length o1. o2 ! k =
           (if cc + 8 \<le> k div ?nb
               \<and> (k mod ?nb = rr div 8 \<or> k mod ?nb = rr div 8 + 1)
            then transposed_byte inp R C k else o1 ! k)" by auto
    have "8 \<le> R" using rr(1) by simp
    then have ok: "int_ok (int cc + 8)" using shape_C_bound[OF s] cc8
      by (simp add: int_ok_def)
    have run: "cols_16x8 inp (int R) (int C) (int rr) (int cc) (tmp, out) = Inr (t2, o2)"
      using True t(1) u(1) ok by (subst cols_16x8.simps) (simp add: add.commute)
    have "\<forall>k<length out. o2 ! k =
           (if cc \<le> k div ?nb
               \<and> (k mod ?nb = rr div 8 \<or> k mod ?nb = rr div 8 + 1)
            then transposed_byte inp R C k else out ! k)"
      using t(2,3) u(3) by auto
    then show ?thesis using run u(2) t(2) by auto
  next
    case False
    then have ccC: "cc = C" using less.prems by simp
    have run: "cols_16x8 inp (int R) (int C) (int rr) (int cc) (tmp, out) = Inr (tmp, out)"
      using False by (subst cols_16x8.simps) simp
    have "\<forall>k<length out. \<not> cc \<le> k div ?nb"
    proof (intro allI impI)
      fix k assume "k < length out"
      then have "k < C * ?nb" using less.prems(1) R8
        by (metis mult.commute mult.left_commute nonzero_mult_div_cancel_left zero_neq_numeral)
      then have "k div ?nb < C"
        by (simp add: less_mult_imp_div_less)
      then show "\<not> cc \<le> k div ?nb" using ccC by simp
    qed
    then show ?thesis using run by auto
  qed
qed

lemma length_div_lt:
  assumes "shape_ok R C" "k < R * C div 8"
  shows "k div (R div 8) < C" "k mod (R div 8) < R div 8"
proof -
  have R8: "R = 8 * (R div 8)" using assms(1) by (auto simp: shape_ok_def)
  have e: "R * C div 8 = C * (R div 8)" using R8
    by (metis mult.commute mult.left_commute nonzero_mult_div_cancel_left zero_neq_numeral)
  then have k: "k < C * (R div 8)" using assms(2) by simp
  then show "k div (R div 8) < C" by (simp add: less_mult_imp_div_less)
  have "0 < R div 8" using k by (cases "R div 8 = 0") auto
  then show "k mod (R div 8) < R div 8" by simp
qed

lemma rows_16_correct:
  assumes s: "shape_ok R C" and li: "length inp = R * C div 8"
  shows "length out = R * C div 8 \<Longrightarrow> rr mod 16 = 0 \<Longrightarrow> rr \<le> R \<Longrightarrow>
     \<exists>tmp' out'. rows_16 inp (int R) (int C) (int rr) (tmp, out)
          = Inr (int (R - R mod 16), tmp', out')
        \<and> length out' = length out \<and>
        (\<forall>k<length out. out' ! k =
           (if rr div 8 \<le> k mod (R div 8) \<and> k mod (R div 8) < (R - R mod 16) div 8
            then transposed_byte inp R C k else out ! k))"
proof (induction "R - rr" arbitrary: rr tmp out rule: less_induct)
  case less
  let ?nb = "R div 8"
  have R8: "R mod 8 = 0" using s by (auto simp: shape_ok_def)
  have "16 dvd rr" using less.prems(2) by (simp add: mod_eq_0_iff_dvd)
  then have "8 dvd rr" by (rule dvd_trans[rotated]) simp
  then have rr8: "rr mod 8 = 0" by (simp add: mod_eq_0_iff_dvd)
  show ?case
  proof (cases "rr + 16 \<le> R")
    case True
    from cols_16x8_correct[OF s li True rr8 less.prems(1), of 0 tmp]
    obtain t1 o1 where t: "cols_16x8 inp (int R) (int C) (int rr) 0 (tmp, out) = Inr (t1, o1)"
      "length o1 = length out"
      "\<forall>k<length out. o1 ! k =
           (if (k mod ?nb = rr div 8 \<or> k mod ?nb = rr div 8 + 1)
            then transposed_byte inp R C k else out ! k)" by auto
    have "R - (rr + 16) < R - rr" using True by simp
    from less.hyps[OF this, of o1 t1] t(2) less.prems True
    obtain t2 o2 where u: "rows_16 inp (int R) (int C) (int (rr + 16)) (t1, o1)
          = Inr (int (R - R mod 16), t2, o2)"
      "length o2 = length o1"
      "\<forall>k<length o1. o2 ! k =
           (if (rr + 16) div 8 \<le> k mod ?nb \<and> k mod ?nb < (R - R mod 16) div 8
            then transposed_byte inp R C k else o1 ! k)" by auto
    have "R < 2 ^ 31" using s by (simp add: shape_ok_def)
    then have ok: "int_ok (int rr + 16)" using True
      by (simp add: int_ok_def)
    have run: "rows_16 inp (int R) (int C) (int rr) (tmp, out) = Inr (int (R - R mod 16), t2, o2)"
      using True t(1) u(1) ok by (subst rows_16.simps) (simp add: add.commute)
    have e: "(rr + 16) div 8 = rr div 8 + 2" by simp
    have "(rr + 16) div 16 \<le> R div 16" using True by (rule div_le_mono)
    then have "rr div 16 + 1 \<le> R div 16" by simp
    then have "16 * (rr div 16) + 16 \<le> 16 * (R div 16)" by simp
    moreover have "16 * (rr div 16) = rr" using less.prems(2) by auto
    moreover have "16 * (R div 16) = R - R mod 16"
      by (simp add: minus_mod_eq_mult_div [symmetric])
    ultimately have "rr + 16 \<le> R - R mod 16" by simp
    then have "(rr + 16) div 8 \<le> (R - R mod 16) div 8" by (rule div_le_mono)
    then have le: "rr div 8 + 2 \<le> (R - R mod 16) div 8" by simp
    have "\<forall>k<length out. o2 ! k =
           (if rr div 8 \<le> k mod ?nb \<and> k mod ?nb < (R - R mod 16) div 8
            then transposed_byte inp R C k else out ! k)"
    proof (intro allI impI)
      fix k assume k: "k < length out"
      consider "k mod ?nb < rr div 8" | "k mod ?nb = rr div 8" | "k mod ?nb = rr div 8 + 1"
        | "rr div 8 + 2 \<le> k mod ?nb" by linarith
      then show "o2 ! k =
           (if rr div 8 \<le> k mod ?nb \<and> k mod ?nb < (R - R mod 16) div 8
            then transposed_byte inp R C k else out ! k)"
        using t(2,3) u(3) k e le by cases auto
    qed
    then show ?thesis using run u(2) t(2) by auto
  next
    case False
    then have e: "rr = R - R mod 16" using mult16_step[OF less.prems(2) _ less.prems(3)] by simp
    have run: "rows_16 inp (int R) (int C) (int rr) (tmp, out) = Inr (int rr, tmp, out)"
      using False by (subst rows_16.simps) simp
    show ?thesis using run e by auto
  qed
qed

lemma index_bound2:
  assumes "shape_ok R C" "x < R" "y + 8 < C"
  shows "x * (C div 8) + y div 8 + 1 < R * C div 8"
proof -
  have "x * (C div 8) + (y + 8) div 8 < R * C div 8"
    using index_bound[OF assms] .
  then show ?thesis by simp
qed

lemma gather_8x16_fold:
  assumes "shape_ok R C" "length inp = R * C div 8" "cc + 8 < C"
    "\<forall>i\<in>set js. i < 8 \<and> rr + (i XOR 7) < R"
  shows "\<exists>tmp'. fold_ub (gather_8x16 inp (int C) (int rr) (int cc)) js tmp = Inr tmp' \<and>
        (\<forall>m<16. block_bytes tmp' ! m =
            (if m < 8 \<and> m \<in> set js then inp ! ((rr + (m XOR 7)) * (C div 8) + cc div 8)
             else if 8 \<le> m \<and> m - 8 \<in> set js
                  then inp ! ((rr + ((m - 8) XOR 7)) * (C div 8) + cc div 8 + 1)
             else block_bytes tmp ! m))"
  using assms(4)
proof (induction js arbitrary: tmp)
  case Nil
  then show ?case by simp
next
  case (Cons i js)
  let ?k = "(rr + (i XOR 7)) * (C div 8) + cc div 8"
  let ?t = "set_b (set_b tmp i (inp ! ?k)) (i + 8) (inp ! (?k + 1))"
  have i: "i < 8" "rr + (i XOR 7) < R" using Cons.prems by auto
  have c: "cc < C" using assms(3) by simp
  have idx: "INP_index (int C) (int rr + II i) (int cc) = Inr (int ?k)"
    using INP_index_nat[OF assms(1) i(2) c] by (simp add: II_def)
  have rd: "read_u16 inp (int ?k) = Inr (inp ! ?k, inp ! (?k + 1))"
    using index_bound2[OF assms(1) i(2) assms(3)] assms(2) by (intro read_u16_nat) simp
  have step: "gather_8x16 inp (int C) (int rr) (int cc) i tmp = Inr ?t"
    by (simp add: gather_8x16_def idx rd del: of_nat_add of_nat_mult)
  from Cons.IH[of ?t] Cons.prems
  obtain tmp' where t: "fold_ub (gather_8x16 inp (int C) (int rr) (int cc)) js ?t = Inr tmp'"
     "\<forall>m<16. block_bytes tmp' ! m =
            (if m < 8 \<and> m \<in> set js then inp ! ((rr + (m XOR 7)) * (C div 8) + cc div 8)
             else if 8 \<le> m \<and> m - 8 \<in> set js
                  then inp ! ((rr + ((m - 8) XOR 7)) * (C div 8) + cc div 8 + 1)
             else block_bytes ?t ! m)" by auto
  have "\<forall>m<16. block_bytes tmp' ! m =
            (if m < 8 \<and> m \<in> set (i # js) then inp ! ((rr + (m XOR 7)) * (C div 8) + cc div 8)
             else if 8 \<le> m \<and> m - 8 \<in> set (i # js)
                  then inp ! ((rr + ((m - 8) XOR 7)) * (C div 8) + cc div 8 + 1)
             else block_bytes tmp ! m)"
  proof (intro allI impI)
    fix m :: nat assume m: "m < 16"
    have e: "m - 8 = i \<longleftrightarrow> m = i + 8" if "8 \<le> m" using that by auto
    show "block_bytes tmp' ! m =
            (if m < 8 \<and> m \<in> set (i # js) then inp ! ((rr + (m XOR 7)) * (C div 8) + cc div 8)
             else if 8 \<le> m \<and> m - 8 \<in> set (i # js)
                  then inp ! ((rr + ((m - 8) XOR 7)) * (C div 8) + cc div 8 + 1)
             else block_bytes tmp ! m)"
      using t(2) m i(1) e
      by (auto simp add: block_bytes_set_b nth_list_update)
  qed
  then show ?case using step t(1) by simp
qed

lemma out_index_bound:
  assumes s: "shape_ok R C" and x: "x < R" and y: "y < C"
  shows "y * (R div 8) + x div 8 < R * C div 8"
proof -
  have s': "shape_ok C R" using s by (simp add: shape_ok_def mult.commute)
  show ?thesis using index_bound[OF s' y x] by (simp add: mult.commute)
qed

lemma scatter_8x16_fold:
  assumes s: "shape_ok R C" and l: "length out = R * C div 8"
    and rr: "rr + 8 \<le> R" "rr mod 8 = 0" and cc: "cc + 16 \<le> C" and n: "n \<le> 8"
  shows "\<exists>out'. fold_ub (scatter_8x16 (int R) (int rr) (int cc)) (map (\<lambda>c. 7 - c) [0..<n]) (tmp, out)
           = Inr (mm_slli_epi64 tmp n, out') \<and> length out' = length out \<and>
        (\<forall>k<length out. out' ! k =
           (if k mod (R div 8) = rr div 8 \<and> cc \<le> k div (R div 8) \<and> k div (R div 8) < cc + n
            then low_byte (mm_movemask_epi8 (mm_slli_epi64 tmp (k div (R div 8) - cc)))
            else if k mod (R div 8) = rr div 8 \<and> cc + 8 \<le> k div (R div 8)
                    \<and> k div (R div 8) < cc + 8 + n
            then high_byte (mm_movemask_epi8 (mm_slli_epi64 tmp (k div (R div 8) - (cc + 8))))
            else out ! k))"
  using n
proof (induction n)
  case 0
  then show ?case by (auto simp add: slli_0)
next
  case (Suc n)
  let ?nb = "R div 8" and ?rb = "rr div 8"
  let ?f = "scatter_8x16 (int R) (int rr) (int cc)"
  from Suc obtain out1 where o1:
    "fold_ub ?f (map (\<lambda>c. 7 - c) [0..<n]) (tmp, out) = Inr (mm_slli_epi64 tmp n, out1)"
    "length out1 = length out"
    "\<forall>k<length out. out1 ! k =
           (if k mod ?nb = ?rb \<and> cc \<le> k div ?nb \<and> k div ?nb < cc + n
            then low_byte (mm_movemask_epi8 (mm_slli_epi64 tmp (k div ?nb - cc)))
            else if k mod ?nb = ?rb \<and> cc + 8 \<le> k div ?nb \<and> k div ?nb < cc + 8 + n
            then high_byte (mm_movemask_epi8 (mm_slli_epi64 tmp (k div ?nb - (cc + 8))))
            else out ! k)" by auto
  have n8: "n < 8" using Suc.prems by simp
  have R8: "R = 8 * ?nb" and rr8: "rr = 8 * ?rb" using s rr(2) by (auto simp: shape_ok_def)
  have rb: "?rb < ?nb" using rr(1) R8 rr8 by linarith
  let ?k = "(cc + n) * ?nb + ?rb"
  let ?k' = "(cc + n + 8) * ?nb + ?rb"
  have x: "rr < R" "cc + n < C" "cc + n + 8 < C" using rr(1) cc n8 by auto
  have idx: "OUT_index (int R) (int rr) (int cc + II (7 - n)) = Inr (int ?k)"
    using OUT_index_nat[OF s x(1,2)] n8 by (simp add: II_rev)
  have idx': "OUT_index (int R) (int rr) (int cc + II (7 - n) + 8) = Inr (int ?k')"
    using OUT_index_nat[OF s x(1,3)] n8 by (simp add: II_rev)
  have kb: "?k < length out1" "?k' < length out1"
    using out_index_bound[OF s x(1,2)] out_index_bound[OF s x(1,3)] l o1(2) by auto
  let ?h = "mm_movemask_epi8 (mm_slli_epi64 tmp n)"
  let ?out2 = "out1[?k := low_byte ?h, ?k' := high_byte ?h]"
  have w1: "write_u8 out1 (int ?k) (low_byte ?h) = Inr (out1[?k := low_byte ?h])"
    using kb(1) by (rule write_u8_nat)
  have w2: "write_u8 (out1[?k := low_byte ?h]) (int ?k') (high_byte ?h) = Inr ?out2"
    using kb(2) by (intro write_u8_nat) simp
  have step: "?f (7 - n) (mm_slli_epi64 tmp n, out1) = Inr (mm_slli_epi64 tmp (Suc n), ?out2)"
    by (simp add: scatter_8x16_def idx idx' w1 w2 Let_def slli_slli del: of_nat_add of_nat_mult)
  have fold: "fold_ub ?f (map (\<lambda>c. 7 - c) [0..<Suc n]) (tmp, out)
       = Inr (mm_slli_epi64 tmp (Suc n), ?out2)"
    by (simp add: fold_ub_append o1(1) step)
  have k0: "\<And>j. (j = ?k) = (j div ?nb = cc + n \<and> j mod ?nb = ?rb)"
    using divmod_eq[of ?rb ?nb _ "cc + n"] rb by simp
  have k1: "\<And>j. (j = ?k') = (j div ?nb = cc + n + 8 \<and> j mod ?nb = ?rb)"
    using divmod_eq[of "?rb" ?nb _ "cc + n + 8"] rb by simp
  have "\<forall>j<length out. ?out2 ! j =
           (if j mod ?nb = ?rb \<and> cc \<le> j div ?nb \<and> j div ?nb < cc + Suc n
            then low_byte (mm_movemask_epi8 (mm_slli_epi64 tmp (j div ?nb - cc)))
            else if j mod ?nb = ?rb \<and> cc + 8 \<le> j div ?nb \<and> j div ?nb < cc + 8 + Suc n
            then high_byte (mm_movemask_epi8 (mm_slli_epi64 tmp (j div ?nb - (cc + 8))))
            else out ! j)"
  proof (intro allI impI)
    fix j assume j: "j < length out"
    consider (a) "j = ?k" | (b) "j = ?k'" | (c) "j \<noteq> ?k" "j \<noteq> ?k'" by blast
    then show "?out2 ! j =
           (if j mod ?nb = ?rb \<and> cc \<le> j div ?nb \<and> j div ?nb < cc + Suc n
            then low_byte (mm_movemask_epi8 (mm_slli_epi64 tmp (j div ?nb - cc)))
            else if j mod ?nb = ?rb \<and> cc + 8 \<le> j div ?nb \<and> j div ?nb < cc + 8 + Suc n
            then high_byte (mm_movemask_epi8 (mm_slli_epi64 tmp (j div ?nb - (cc + 8))))
            else out ! j)"
    proof cases
      case a
      then have d: "j div ?nb = cc + n" "j mod ?nb = ?rb" using k0 by auto
      have ne: "?k \<noteq> ?k'" using rb by simp
      have v: "?out2 ! j = low_byte ?h" unfolding a using kb ne by simp
      show ?thesis unfolding v using d by simp
    next
      case b
      then have d: "j div ?nb = cc + n + 8" "j mod ?nb = ?rb" using k1 by auto
      have e: "cc + n + 8 - (cc + 8) = n" by simp
      have v: "?out2 ! j = high_byte ?h" unfolding b using kb by simp
      show ?thesis unfolding v using d e by simp
    next
      case c
      then have "?out2 ! j = out1 ! j" by simp
      moreover have "\<not> (j div ?nb = cc + n \<and> j mod ?nb = ?rb)"
        "\<not> (j div ?nb = cc + n + 8 \<and> j mod ?nb = ?rb)"
        using c k0 k1 by auto
      ultimately show ?thesis using o1(3) j by (auto simp: less_Suc_eq)
    qed
  qed
  then show ?case using fold o1(2) by simp
qed

lemma scatter_8x8_fold:
  assumes s: "shape_ok R C" and l: "length out = R * C div 8"
    and rr: "rr + 8 \<le> R" "rr mod 8 = 0" and cc: "cc + 8 \<le> C" and n: "n \<le> 8"
  shows "\<exists>out'. fold_ub (scatter_8x8 (int R) (int rr) (int cc)) (map (\<lambda>c. 7 - c) [0..<n]) (tmp, out)
           = Inr (mm_slli_epi64 tmp n, out') \<and> length out' = length out \<and>
        (\<forall>k<length out. out' ! k =
           (if k mod (R div 8) = rr div 8 \<and> cc \<le> k div (R div 8) \<and> k div (R div 8) < cc + n
            then low_byte (mm_movemask_epi8 (mm_slli_epi64 tmp (k div (R div 8) - cc)))
            else out ! k))"
  using n
proof (induction n)
  case 0
  then show ?case by (auto simp add: slli_0)
next
  case (Suc n)
  let ?nb = "R div 8" and ?rb = "rr div 8"
  let ?f = "scatter_8x8 (int R) (int rr) (int cc)"
  from Suc obtain out1 where o1:
    "fold_ub ?f (map (\<lambda>c. 7 - c) [0..<n]) (tmp, out) = Inr (mm_slli_epi64 tmp n, out1)"
    "length out1 = length out"
    "\<forall>k<length out. out1 ! k =
           (if k mod ?nb = ?rb \<and> cc \<le> k div ?nb \<and> k div ?nb < cc + n
            then low_byte (mm_movemask_epi8 (mm_slli_epi64 tmp (k div ?nb - cc)))
            else out ! k)" by auto
  have n8: "n < 8" using Suc.prems by simp
  have R8: "R = 8 * ?nb" and rr8: "rr = 8 * ?rb" using s rr(2) by (auto simp: shape_ok_def)
  have rb: "?rb < ?nb" using rr(1) R8 rr8 by linarith
  let ?k = "(cc + n) * ?nb + ?rb"
  have x: "rr < R" "cc + n < C" using rr(1) cc n8 by auto
  have idx: "OUT_index (int R) (int rr) (int cc + II (7 - n)) = Inr (int ?k)"
    using OUT_index_nat[OF s x(1,2)] n8 by (simp add: II_rev)
  have kb: "?k < length out1"
    using out_index_bound[OF s x(1,2)] l o1(2) by auto
  let ?h = "mm_movemask_epi8 (mm_slli_epi64 tmp n)"
  let ?out2 = "out1[?k := low_byte ?h]"
  have w1: "write_u8 out1 (int ?k) (low_byte ?h) = Inr ?out2"
    using kb(1) by (rule write_u8_nat)
  have step: "?f (7 - n) (mm_slli_epi64 tmp n, out1) = Inr (mm_slli_epi64 tmp (Suc n), ?out2)"
    by (simp add: scatter_8x8_def idx w1 Let_def slli_slli del: of_nat_add of_nat_mult)
  have fold: "fold_ub ?f (map (\<lambda>c. 7 - c) [0..<Suc n]) (tmp, out)
       = Inr (mm_slli_epi64 tmp (Suc n), ?out2)"
    by (simp add: fold_ub_append o1(1) step)
  have k0: "\<And>j. (j = ?k) = (j div ?nb = cc + n \<and> j mod ?nb = ?rb)"
    using divmod_eq[of ?rb ?nb _ "cc + n"] rb by simp
  have "\<forall>j<length out. ?out2 ! j =
           (if j mod ?nb = ?rb \<and> cc \<le> j div ?nb \<and> j div ?nb < cc + Suc n
            then low_byte (mm_movemask_epi8 (mm_slli_epi64 tmp (j div ?nb - cc)))
            else out ! j)"
  proof (intro allI impI)
    fix j assume j: "j < length out"
    show "?out2 ! j =
           (if j mod ?nb = ?rb \<and> cc \<le> j div ?nb \<and> j div ?nb < cc + Suc n
            then low_byte (mm_movemask_epi8 (mm_slli_epi64 tmp (j div ?nb - cc)))
            else out ! j)"
    proof (cases "j = ?k")
      case True
      then have d: "j div ?nb = cc + n" "j mod ?nb = ?rb" using k0 by auto
      then show ?thesis using True kb d by simp
    next
      case False
      then have "?out2 ! j = out1 ! j" by simp
      moreover have "\<not> (j div ?nb = cc + n \<and> j mod ?nb = ?rb)"
        using False k0 by auto
      ultimately show ?thesis using o1(3) j by (auto simp: less_Suc_eq)
    qed
  qed
  then show ?case using fold o1(2) by simp
qed

lemma div_mod_next_byte:
  assumes cc: "(cc::nat) mod 8 = 0" and c: "c < 8"
  shows "(cc + 8 + c) div 8 = cc div 8 + 1" "(cc + 8 + c) mod 8 = c"
proof -
  have q: "cc = 8 * (cc div 8)" using cc by auto
  define q' where "q' = cc div 8 + 1"
  have e: "cc + 8 + c = c + q' * 8" using q by (simp add: q'_def)
  have "(c + q' * 8) div 8 = c div 8 + q'"
    by simp
  moreover have "(c + q' * 8) mod 8 = c mod 8"
    by simp
  ultimately show "(cc + 8 + c) div 8 = cc div 8 + 1" "(cc + 8 + c) mod 8 = c"
    unfolding e using c by (simp_all add: q'_def)
qed

lemma high_byte_transposed_8x16:
  assumes cc: "cc mod 8 = 0" and c: "c < 8" and rr: "rr mod 8 = 0"
    and k: "k div (R div 8) = cc + 8 + c" "k mod (R div 8) = rr div 8"
    and t: "\<forall>m<8. block_bytes tmp ! (m + 8) = inp ! ((rr + (m XOR 7)) * (C div 8) + cc div 8 + 1)"
  shows "high_byte (mm_movemask_epi8 (mm_slli_epi64 tmp c)) = transposed_byte inp R C k"
proof (rule bit_eqI)
  fix b
  have d: "(cc + 8 + c) div 8 = cc div 8 + 1" "(cc + 8 + c) mod 8 = c"
    using div_mod_next_byte[OF cc c] .
  have r: "8 * (rr div 8) = rr" using rr by auto
  show "bit (high_byte (mm_movemask_epi8 (mm_slli_epi64 tmp c))) b = bit (transposed_byte inp R C k) b"
  proof (cases "b < 8")
    case True
    then have e: "8 * (rr div 8) + 7 - b = rr + (b XOR 7)" using r by (simp add: xor7_low)
    have "bit (high_byte (mm_movemask_epi8 (mm_slli_epi64 tmp c))) b
        = bit (mm_slli_epi64 tmp c) (8 * (b + 8) + 7)"
      using True by (simp only: bit_high_byte_movemask simp_thms)
    also have "\<dots> = bit (block_bytes tmp ! (b + 8)) (7 - c)"
      using True c by (intro bit_tmp_byte) auto
    also have "\<dots> = bit (inp ! ((rr + (b XOR 7)) * (C div 8) + cc div 8 + 1)) (7 - c)"
      using t True by simp
    also have "\<dots> = bit (transposed_byte inp R C k) b"
      using True k d e by (simp add: transposed_byte_def bit_byte_of_bits mbit_def)
    finally show ?thesis .
  next
    case False
    then show ?thesis by (simp add: bit_high_byte_movemask transposed_byte_def bit_byte_of_bits)
  qed
qed

lemma rows8_in_range: "rr + 8 \<le> R \<Longrightarrow> \<forall>i\<in>set (rev [0..<8]). i < 8 \<and> rr + (i XOR 7) < R"
proof
  fix i :: nat assume r: "rr + 8 \<le> R" and "i \<in> set (rev [0..<8])"
  then have i: "i < 8" by simp
  then have "i XOR 7 < 8" by (simp add: xor7_low)
  then show "i < 8 \<and> rr + (i XOR 7) < R" using i r by simp
qed

lemma tile_8x16_correct:
  assumes s: "shape_ok R C" and li: "length inp = R * C div 8" and lo: "length out = R * C div 8"
    and rr: "rr + 8 \<le> R" "rr mod 8 = 0" and cc: "cc + 16 \<le> C" "cc mod 8 = 0"
  shows "\<exists>tmp' out'. tile_8x16 inp (int R) (int C) (int rr) (int cc) (tmp, out) = Inr (tmp', out')
        \<and> length out' = length out \<and>
        (\<forall>k<length out. out' ! k =
           (if k mod (R div 8) = rr div 8 \<and> cc \<le> k div (R div 8) \<and> k div (R div 8) < cc + 16
            then transposed_byte inp R C k else out ! k))"
proof -
  have c8: "cc + 8 < C" using cc(1) by simp
  from gather_8x16_fold[OF s li c8 rows8_in_range[OF rr(1)], of tmp]
  obtain t1 where t1: "fold_ub (gather_8x16 inp (int C) (int rr) (int cc)) (rev [0..<8]) tmp = Inr t1"
     "\<forall>m<16. block_bytes t1 ! m =
            (if m < 8 \<and> m \<in> set (rev [0..<8]) then inp ! ((rr + (m XOR 7)) * (C div 8) + cc div 8)
             else if 8 \<le> m \<and> m - 8 \<in> set (rev [0..<8])
                  then inp ! ((rr + ((m - 8) XOR 7)) * (C div 8) + cc div 8 + 1)
             else block_bytes tmp ! m)"
    by blast
  have tl: "\<forall>m<8. block_bytes t1 ! m = inp ! ((rr + (m XOR 7)) * (C div 8) + cc div 8)"
    using t1(2) by simp
  have th: "\<forall>m<8. block_bytes t1 ! (m + 8) = inp ! ((rr + (m XOR 7)) * (C div 8) + cc div 8 + 1)"
    using t1(2) by simp
  from scatter_8x16_fold[OF s lo rr cc(1), of 8 t1]
  obtain out' where o: "fold_ub (scatter_8x16 (int R) (int rr) (int cc)) (rev [0..<8]) (t1, out)
           = Inr (mm_slli_epi64 t1 8, out')" "length out' = length out"
        "\<forall>k<length out. out' ! k =
           (if k mod (R div 8) = rr div 8 \<and> cc \<le> k div (R div 8) \<and> k div (R div 8) < cc + 8
            then low_byte (mm_movemask_epi8 (mm_slli_epi64 t1 (k div (R div 8) - cc)))
            else if k mod (R div 8) = rr div 8 \<and> cc + 8 \<le> k div (R div 8)
                    \<and> k div (R div 8) < cc + 8 + 8
            then high_byte (mm_movemask_epi8 (mm_slli_epi64 t1 (k div (R div 8) - (cc + 8))))
            else out ! k)"
    unfolding rev_upt8 by auto
  have tile: "tile_8x16 inp (int R) (int C) (int rr) (int cc) (tmp, out) = Inr (mm_slli_epi64 t1 8, out')"
    by (simp add: tile_8x16_def t1(1) o(1))
  have "\<forall>k<length out. out' ! k =
           (if k mod (R div 8) = rr div 8 \<and> cc \<le> k div (R div 8) \<and> k div (R div 8) < cc + 16
            then transposed_byte inp R C k else out ! k)"
  proof (intro allI impI)
    fix k assume k: "k < length out"
    consider (lo) "k mod (R div 8) = rr div 8" "cc \<le> k div (R div 8)" "k div (R div 8) < cc + 8"
      | (hi) "k mod (R div 8) = rr div 8" "cc + 8 \<le> k div (R div 8)" "k div (R div 8) < cc + 16"
      | (no) "\<not> (k mod (R div 8) = rr div 8 \<and> cc \<le> k div (R div 8) \<and> k div (R div 8) < cc + 16)"
      by linarith
    then show "out' ! k =
           (if k mod (R div 8) = rr div 8 \<and> cc \<le> k div (R div 8) \<and> k div (R div 8) < cc + 16
            then transposed_byte inp R C k else out ! k)"
    proof cases
      case lo
      define c where "c = k div (R div 8) - cc"
      have c: "c < 8" "k div (R div 8) = cc + c" using lo by (auto simp: c_def)
      have "out' ! k = low_byte (mm_movemask_epi8 (mm_slli_epi64 t1 c))"
        using o(3) k lo by (simp add: c_def)
      also have "\<dots> = transposed_byte inp R C k"
        by (rule low_byte_transposed[OF cc(2) c(1) rr(2) c(2) lo(1) tl])
      finally show ?thesis using lo by simp
    next
      case hi
      define c where "c = k div (R div 8) - (cc + 8)"
      have c: "c < 8" "k div (R div 8) = cc + 8 + c" using hi by (auto simp: c_def)
      have "out' ! k = high_byte (mm_movemask_epi8 (mm_slli_epi64 t1 c))"
        using o(3) k hi by (simp add: c_def)
      also have "\<dots> = transposed_byte inp R C k"
        by (rule high_byte_transposed_8x16[OF cc(2) c(1) rr(2) c(2) hi(1) th])
      finally show ?thesis using hi by simp
    next
      case no
      then show ?thesis using o(3) k by auto
    qed
  qed
  then show ?thesis using tile o(2) by blast
qed

lemma tile_8x8_correct:
  assumes s: "shape_ok R C" and li: "length inp = R * C div 8" and lo: "length out = R * C div 8"
    and rr: "rr + 8 \<le> R" "rr mod 8 = 0" and cc: "cc + 8 \<le> C" "cc mod 8 = 0"
  shows "\<exists>tmp' out'. tile_8x8 inp (int R) (int C) (int rr) (int cc) (tmp, out) = Inr (tmp', out')
        \<and> length out' = length out \<and>
        (\<forall>k<length out. out' ! k =
           (if k mod (R div 8) = rr div 8 \<and> cc \<le> k div (R div 8) \<and> k div (R div 8) < cc + 8
            then transposed_byte inp R C k else out ! k))"
proof -
  have c8: "cc < C" using cc(1) by simp
  have rg: "\<forall>i\<in>set (rev [0..<8]). i < 16 \<and> rr + (i XOR 7) < R"
    using rows8_in_range[OF rr(1)] by auto
  from gather_16x8_fold[OF s li c8 rg, of tmp]
  obtain t1 where t1: "fold_ub (gather_16x8 inp (int C) (int rr) (int cc)) (rev [0..<8]) tmp = Inr t1"
     "\<forall>m<16. block_bytes t1 ! m =
            (if m \<in> set (rev [0..<8]) then inp ! ((rr + (m XOR 7)) * (C div 8) + cc div 8)
             else block_bytes tmp ! m)"
    by blast
  have tl: "\<forall>m<8. block_bytes t1 ! m = inp ! ((rr + (m XOR 7)) * (C div 8) + cc div 8)"
    using t1(2) by simp
  from scatter_8x8_fold[OF s lo rr cc(1), of 8 t1]
  obtain out' where o: "fold_ub (scatter_8x8 (int R) (int rr) (int cc)) (rev [0..<8]) (t1, out)
           = Inr (mm_slli_epi64 t1 8, out')" "length out' = length out"
        "\<forall>k<length out. out' ! k =
           (if k mod (R div 8) = rr div 8 \<and> cc \<le> k div (R div 8) \<and> k div (R div 8) < cc + 8
            then low_byte (mm_movemask_epi8 (mm_slli_epi64 t1 (k div (R div 8) - cc)))
            else out ! k)"
    unfolding rev_upt8 by auto
  have tile: "tile_8x8 inp (int R) (int C) (int rr) (int cc) (tmp, out) = Inr (mm_slli_epi64 t1 8, out')"
    by (simp add: tile_8x8_def t1(1) o(1))
  have "\<forall>k<length out. out' ! k =
           (if k mod (R div 8) = rr div 8 \<and> cc \<le> k div (R div 8) \<and> k div (R div 8) < cc + 8
            then transposed_byte inp R C k else out ! k)"
  proof (intro allI impI)
    fix k assume k: "k < length out"
    show "out' ! k =
           (if k mod (R div 8) = rr div 8 \<and> cc \<le> k div (R div 8) \<and> k div (R div 8) < cc + 8
            then transposed_byte inp R C k else out ! k)"
    proof (cases "k mod (R div 8) = rr div 8 \<and> cc \<le> k div (R div 8) \<and> k div (R div 8) < cc + 8")
      case True
      define c where "c = k div (R div 8) - cc"
      have c: "c < 8" "k div (R div 8) = cc + c" using True by (auto simp: c_def)
      have m: "k mod (R div 8) = rr div 8" using True by simp
      have "out' ! k = low_byte (mm_movemask_epi8 (mm_slli_epi64 t1 c))"
        using o(3) k True by (simp add: c_def)
      also have "\<dots> = transposed_byte inp R C k"
        by (rule low_byte_transposed[OF cc(2) c(1) rr(2) c(2) m tl])
      finally show ?thesis using True by simp
    next
      case False
      then show ?thesis using o(3) k by auto
    qed
  qed
  then show ?thesis using tile o(2) by blast
qed

lemma mod16_cases: "(n::nat) mod 8 = 0 \<Longrightarrow> n mod 16 = 0 \<or> n mod 16 = 8"
proof -
  assume a: "n mod 8 = 0"
  have "n mod (8 * 2) = 8 * ((n div 8) mod 2) + n mod 8" by (simp only: mod_mult2_eq)
  then have "n mod 16 = 8 * ((n div 8) mod 2)" using a by simp
  moreover have "(n div 8) mod 2 = 0 \<or> (n div 8) mod 2 = 1" by auto
  ultimately show ?thesis by auto
qed

lemma mod16_to_8: "(n::nat) mod 16 = 0 \<Longrightarrow> n mod 8 = 0"
proof -
  assume "n mod 16 = 0"
  then have "16 dvd n" by (simp add: mod_eq_0_iff_dvd)
  then have "8 dvd n" by (rule dvd_trans[rotated]) simp
  then show ?thesis by (simp add: mod_eq_0_iff_dvd)
qed

lemma cols_8x16_correct:
  assumes s: "shape_ok R C" and li: "length inp = R * C div 8"
    and rr: "rr + 8 \<le> R" "rr mod 8 = 0"
  shows "length out = R * C div 8 \<Longrightarrow> cc mod 16 = 0 \<Longrightarrow> cc \<le> C \<Longrightarrow>
     \<exists>tmp' out'. cols_8x16 inp (int R) (int C) (int rr) (int cc) (tmp, out)
          = Inr (int (C - C mod 16), tmp', out')
        \<and> length out' = length out \<and>
        (\<forall>k<length out. out' ! k =
           (if k mod (R div 8) = rr div 8 \<and> cc \<le> k div (R div 8)
               \<and> k div (R div 8) < C - C mod 16
            then transposed_byte inp R C k else out ! k))"
proof (induction "C - cc" arbitrary: cc tmp out rule: less_induct)
  case less
  let ?nb = "R div 8"
  have cc8: "cc mod 8 = 0" using less.prems(2) by (rule mod16_to_8)
  show ?case
  proof (cases "cc + 16 \<le> C")
    case True
    from tile_8x16_correct[OF s li less.prems(1) rr True cc8, of tmp]
    obtain t1 o1 where t: "tile_8x16 inp (int R) (int C) (int rr) (int cc) (tmp, out) = Inr (t1, o1)"
      "length o1 = length out"
      "\<forall>k<length out. o1 ! k =
           (if k mod ?nb = rr div 8 \<and> cc \<le> k div ?nb \<and> k div ?nb < cc + 16
            then transposed_byte inp R C k else out ! k)" by blast
    have "C - (cc + 16) < C - cc" using True by simp
    from less.hyps[OF this, of o1 t1] t(2) less.prems True
    obtain t2 o2 where u: "cols_8x16 inp (int R) (int C) (int rr) (int (cc + 16)) (t1, o1)
          = Inr (int (C - C mod 16), t2, o2)"
      "length o2 = length o1"
      "\<forall>k<length o1. o2 ! k =
           (if k mod ?nb = rr div 8 \<and> cc + 16 \<le> k div ?nb \<and> k div ?nb < C - C mod 16
            then transposed_byte inp R C k else o1 ! k)" by auto
    have "C < 2 ^ 31" using s by (simp add: shape_ok_def)
    then have ok: "int_ok (int cc + 16)" using True
      by (simp add: int_ok_def)
    have run: "cols_8x16 inp (int R) (int C) (int rr) (int cc) (tmp, out)
         = Inr (int (C - C mod 16), t2, o2)"
      using True t(1) u(1) ok by (subst cols_8x16.simps) (simp add: add.commute)
    have "(cc + 16) div 16 \<le> C div 16" using True by (rule div_le_mono)
    then have "cc div 16 + 1 \<le> C div 16" by simp
    then have "16 * (cc div 16) + 16 \<le> 16 * (C div 16)" by simp
    moreover have "16 * (cc div 16) = cc" using less.prems(2) by auto
    moreover have "16 * (C div 16) = C - C mod 16"
      by (simp add: minus_mod_eq_mult_div [symmetric])
    ultimately have le: "cc + 16 \<le> C - C mod 16" by simp
    have "\<forall>k<length out. o2 ! k =
           (if k mod ?nb = rr div 8 \<and> cc \<le> k div ?nb \<and> k div ?nb < C - C mod 16
            then transposed_byte inp R C k else out ! k)"
    proof (intro allI impI)
      fix k assume k: "k < length out"
      consider "k div ?nb < cc" | "cc \<le> k div ?nb" "k div ?nb < cc + 16"
        | "cc + 16 \<le> k div ?nb" by linarith
      then show "o2 ! k =
           (if k mod ?nb = rr div 8 \<and> cc \<le> k div ?nb \<and> k div ?nb < C - C mod 16
            then transposed_byte inp R C k else out ! k)"
        using t(2,3) u(3) k le by cases auto
    qed
    then show ?thesis using run u(2) t(2) by auto
  next
    case False
    then have e: "cc = C - C mod 16" using mult16_step[OF less.prems(2) _ less.prems(3)] by simp
    have run: "cols_8x16 inp (int R) (int C) (int rr) (int cc) (tmp, out) = Inr (int cc, tmp, out)"
      using False by (subst cols_8x16.simps) simp
    show ?thesis using run e by auto
  qed
qed

lemma length_transposed [simp]: "length (transposed inp R C) = R * C div 8"
  by (simp add: transposed_def)

lemma nth_transposed:
  "k < R * C div 8 \<Longrightarrow> transposed inp R C ! k = transposed_byte inp R C k"
  by (simp add: transposed_def)

lemma BitMatrixTranspose_correct:
  assumes s: "shape_ok R C" and li: "length inp = R * C div 8" and lo: "length out = R * C div 8"
  shows "BitMatrixTranspose inp (int R) (int C) out = Inr (transposed inp R C)"
proof -
  let ?nb = "R div 8"
  have R8: "R mod 8 = 0" and C8: "C mod 8 = 0" and Rb: "R < 2 ^ 31" and Cb: "C < 2 ^ 31"
    using s by (auto simp: shape_ok_def)
  have ok: "int_ok (int R)" "int_ok (int C)" "int_ok (int R - 16)" "int_ok (int C - 16)"
    using Rb Cb by (simp_all add: int_ok_def)
  from rows_16_correct[OF s li lo, of 0 0]
  obtain t1 o1 where r: "rows_16 inp (int R) (int C) 0 (0, out) = Inr (int (R - R mod 16), t1, o1)"
     "length o1 = length out"
     "\<forall>k<length out. o1 ! k =
           (if k mod ?nb < (R - R mod 16) div 8
            then transposed_byte inp R C k else out ! k)" by auto
  have fin: "res = transposed inp R C"
    if "length res = length out" "\<forall>k<length out. res ! k = transposed_byte inp R C k" for res
    using that lo by (intro nth_equalityI) (simp_all add: nth_transposed)
  from mod16_cases[OF R8] show ?thesis
  proof
    assume R16: "R mod 16 = 0"
    have "\<forall>k<length out. o1 ! k = transposed_byte inp R C k"
      using r(3) length_div_lt(2)[OF s] lo R16 by simp
    then have "o1 = transposed inp R C" using fin r(2) by blast
    then show ?thesis using r(1) ok R16 by (simp add: BitMatrixTranspose_def)
  next
    assume R16: "R mod 16 = 8"
    then have R8': "8 \<le> R" by (metis mod_less_eq_dividend)
    have rr: "R - 8 + 8 \<le> R" "(R - 8) mod 8 = 0" using R8' R8
      by (simp_all add: mod_eq_0_iff_dvd)
    have ne: "int (R - 8) \<noteq> int R" using R8' by simp
    have rb: "(R - 8) div 8 = ?nb - 1" by simp
    have rd: "(R - R mod 16) div 8 = ?nb - 1" using R16 by simp
    from cols_8x16_correct[OF s li rr, of o1 0 t1] r(2) lo
    obtain t2 o2 where c: "cols_8x16 inp (int R) (int C) (int (R - 8)) 0 (t1, o1)
          = Inr (int (C - C mod 16), t2, o2)"
      "length o2 = length o1"
      "\<forall>k<length o1. o2 ! k =
           (if k mod ?nb = ?nb - 1 \<and> k div ?nb < C - C mod 16
            then transposed_byte inp R C k else o1 ! k)" by (auto simp: rb)
    from mod16_cases[OF C8] show ?thesis
    proof
      assume C16: "C mod 16 = 0"
      have "\<forall>k<length out. o2 ! k = transposed_byte inp R C k"
      proof (intro allI impI)
        fix k assume k: "k < length out"
        have m: "k mod ?nb < ?nb" and d: "k div ?nb < C"
          using length_div_lt[OF s, of k] k lo by auto
        show "o2 ! k = transposed_byte inp R C k"
        proof (cases "k mod ?nb = ?nb - 1")
          case True
          then show ?thesis using c(3) k r(2) d C16 by simp
        next
          case False
          then have "k mod ?nb < ?nb - 1" using m by linarith
          then have "o1 ! k = transposed_byte inp R C k" using r(3) k rd by simp
          moreover have "o2 ! k = o1 ! k" using c(3) k r(2) False by simp
          ultimately show ?thesis by simp
        qed
      qed
      then have "o2 = transposed inp R C" using fin r(2) c(2) by simp
      then show ?thesis using r(1) c(1) ok R16 C16 ne by (simp add: BitMatrixTranspose_def)
    next
      assume C16: "C mod 16 = 8"
      then have C8': "8 \<le> C" by (metis mod_less_eq_dividend)
      have cc: "C - 8 + 8 \<le> C" "(C - 8) mod 8 = 0" using C8' C8
        by (simp_all add: mod_eq_0_iff_dvd)
      have nec: "int (C - 8) \<noteq> int C" using C8' by simp
      from tile_8x8_correct[OF s li _ rr cc, of o2 t2] c(2) r(2) lo
      obtain t3 o3 where t: "tile_8x8 inp (int R) (int C) (int (R - 8)) (int (C - 8)) (t2, o2)
           = Inr (t3, o3)" "length o3 = length o2"
        "\<forall>k<length o2. o3 ! k =
           (if k mod ?nb = ?nb - 1 \<and> C - 8 \<le> k div ?nb \<and> k div ?nb < C - 8 + 8
            then transposed_byte inp R C k else o2 ! k)" by (auto simp: rb)
      have "\<forall>k<length out. o3 ! k = transposed_byte inp R C k"
      proof (intro allI impI)
        fix k assume k: "k < length out"
        have m: "k mod ?nb < ?nb" and d: "k div ?nb < C"
          using length_div_lt[OF s, of k] k lo by auto
        have k2: "k < length o2" "k < length o1" using k c(2) r(2) by auto
        show "o3 ! k = transposed_byte inp R C k"
        proof (cases "k mod ?nb = ?nb - 1")
          case True
          show ?thesis
          proof (cases "k div ?nb < C - 8")
            case T2: True
            then have "o2 ! k = transposed_byte inp R C k" using c(3) k2 True C16 by simp
            moreover have "o3 ! k = o2 ! k" using t(3) k2 T2 by simp
            ultimately show ?thesis by simp
          next
            case F2: False
            then have "C - 8 \<le> k div ?nb \<and> k div ?nb < C - 8 + 8" using d C8' by simp
            then show ?thesis using t(3) k2 True by simp
          qed
        next
          case False
          then have "k mod ?nb < ?nb - 1" using m by linarith
          then have "o1 ! k = transposed_byte inp R C k" using r(3) k rd by simp
          moreover have "o2 ! k = o1 ! k" using c(3) k2 False by simp
          moreover have "o3 ! k = o2 ! k" using t(3) k2 False by simp
          ultimately show ?thesis by simp
        qed
      qed
      then have "o3 = transposed inp R C" using fin r(2) c(2) t(2) by simp
      then show ?thesis using r(1) c(1) t(1) ok R16 C16 ne nec
        by (simp add: BitMatrixTranspose_def)
    qed
  qed
qed

lemma mbit_transposed:
  assumes x: "x < R" and y: "y < C" and R8: "R mod 8 = 0"
  shows "mbit (transposed inp R C) R y x = mbit inp C x y"
proof -
  let ?nb = "R div 8"
  have Re: "R = ?nb * 8" using R8 by (simp add: mod_eq_0_iff_dvd)
  have xd: "x div 8 < ?nb" using x Re less_mult_imp_div_less[of x ?nb 8] by simp
  have nb: "0 < ?nb" using xd by simp
  have k: "y * ?nb + x div 8 < R * C div 8"
  proof -
    have "y * ?nb + x div 8 < y * ?nb + ?nb" using xd by simp
    also have "\<dots> = (y + 1) * ?nb" by simp
    also have "\<dots> \<le> C * ?nb" using y by (intro mult_le_mono1) simp
    also have "\<dots> = R * C div 8"
    proof -
      have "8 dvd R" using R8 by (simp add: mod_eq_0_iff_dvd)
      then have "C * ?nb = C * R div 8" by (rule div_mult_swap)
      then show ?thesis by (simp only: mult.commute[of C R])
    qed
    finally show ?thesis .
  qed
  have m: "(y * ?nb + x div 8) mod ?nb = x div 8" using xd by simp
  have d: "(y * ?nb + x div 8) div ?nb = y" using xd nb by simp
  have b: "7 - x mod 8 < 8" by simp
  have e: "8 * (x div 8) + 7 - (7 - x mod 8) = x"
  proof -
    have "x mod 8 < 8" by simp
    then have "8 * (x div 8) + 7 - (7 - x mod 8) = 8 * (x div 8) + x mod 8" by linarith
    then show ?thesis by simp
  qed
  show ?thesis
    unfolding mbit_def[of "transposed inp R C"]
    by (simp only: nth_transposed[OF k] transposed_byte_def bit_byte_of_bits m d e b simp_thms)
qed

lemma transposed_involution:
  assumes R8: "R mod 8 = 0" and C8: "C mod 8 = 0" and l: "length inp = R * C div 8"
  shows "transposed (transposed inp R C) C R = inp"
proof (rule nth_equalityI)
  show "length (transposed (transposed inp R C) C R) = length inp"
    using l by (simp add: mult.commute)
next
  fix k assume "k < length (transposed (transposed inp R C) C R)"
  then have k: "k < C * R div 8" by simp
  let ?cb = "C div 8"
  have Ce: "C = ?cb * 8" using C8 by (simp add: mod_eq_0_iff_dvd)
  have "8 dvd C" using C8 by (simp add: mod_eq_0_iff_dvd)
  then have "R * ?cb = R * C div 8" by (rule div_mult_swap)
  then have k2: "k < R * ?cb" using k by (simp only: mult.commute[of C R])
  then have cb: "0 < ?cb" by (cases "?cb = 0") simp_all
  have x: "k div ?cb < R" using k2 by (simp add: less_mult_imp_div_less)
  have m: "k mod ?cb < ?cb" using cb by simp
  show "transposed (transposed inp R C) C R ! k = inp ! k"
  proof (rule bit_eqI)
    fix b
    show "bit (transposed (transposed inp R C) C R ! k) b = bit (inp ! k) b"
    proof (cases "b < 8")
      case False
      then show ?thesis
        using bit_imp_le_length[of "transposed (transposed inp R C) C R ! k" b]
          bit_imp_le_length[of "inp ! k" b] by auto
    next
      case True
      let ?y = "8 * (k mod ?cb) + 7 - b"
      have "8 * (k mod ?cb) + 8 \<le> 8 * ?cb" using m by linarith
      then have y: "?y < C" using Ce by linarith
      have yd: "?y = 8 * (k mod ?cb) + (7 - b)" using True by linarith
      have ydiv: "?y div 8 = k mod ?cb" unfolding yd by simp
      have ymod: "?y mod 8 = 7 - b" unfolding yd by simp
      have bb: "7 - (7 - b) = b" using True by linarith
      have kk: "k div ?cb * ?cb + k mod ?cb = k" by (rule div_mult_mod_eq)
      have "bit (transposed (transposed inp R C) C R ! k) b
            = mbit (transposed inp R C) R ?y (k div ?cb)"
        by (simp only: nth_transposed[OF k] transposed_byte_def bit_byte_of_bits True simp_thms)
      also have "\<dots> = mbit inp C (k div ?cb) ?y"
        by (rule mbit_transposed[OF x y R8])
      also have "\<dots> = bit (inp ! k) b"
        unfolding mbit_def by (simp only: ydiv ymod bb kk)
      finally show ?thesis .
    qed
  qed
qed

lemma shape_ok_commute: "shape_ok R C \<Longrightarrow> shape_ok C R"
  by (simp add: shape_ok_def mult.commute)

lemma BitMatrixTranspose_twice:
  assumes s: "shape_ok R C" and l: "length M = R * C div 8"
    and l1: "length out1 = R * C div 8" and l2: "length out2 = R * C div 8"
  shows "\<exists>M'. BitMatrixTranspose M (int R) (int C) out1 = Inr M'
            \<and> BitMatrixTranspose M' (int C) (int R) out2 = Inr M"
proof -
  have R8: "R mod 8 = 0" and C8: "C mod 8 = 0" using s by (simp_all add: shape_ok_def)
  have a: "BitMatrixTranspose M (int R) (int C) out1 = Inr (transposed M R C)"
    by (rule BitMatrixTranspose_correct[OF s l l1])
  have "BitMatrixTranspose (transposed M R C) (int C) (int R) out2
        = Inr (transposed (transposed M R C) C R)"
    by (rule BitMatrixTranspose_correct[OF shape_ok_commute[OF s]])
       (simp_all add: l2 mult.commute)
  then show ?thesis using a transposed_involution[OF R8 C8 l] by simp
qed

section \<open>Proofs: \<^verbatim>\<open>empBitMatrixTranspose\<close>\<close>

lemma emp_8x8_fault:
  "empBitMatrixTranspose [a, b, c, d, e, f, g, h] 8 8 out = Inl Out_of_bounds"
proof -
  have g: "fold_ub (emp_gather_16x8 [a, b, c, d, e, f, g, h] 8 0 0) [0..<16] 0 = Inl Out_of_bounds"
    by (simp add: upt_conv_Cons emp_gather_16x8_def INPUT_index_def int_ok_def cdiv8_def
          read_u8_def)
  have t: "emp_tile_16x8 [a, b, c, d, e, f, g, h] 8 8 0 0 out = Inl Out_of_bounds"
    by (simp add: emp_tile_16x8_def g)
  have c: "emp_cols_16x8 [a, b, c, d, e, f, g, h] 8 8 0 0 out = Inl Out_of_bounds"
    by (subst emp_cols_16x8.simps) (simp add: t)
  have r: "emp_rows_16 [a, b, c, d, e, f, g, h] 8 8 0 out = Inl Out_of_bounds"
    by (subst emp_rows_16.simps) (simp add: c)
  show ?thesis by (simp add: empBitMatrixTranspose_def r)
qed

text \<open>With sixteen rows and sixteen columns the routine does transpose, in its layout.\<close>

lemma emp_16x16_example:
  "empBitMatrixTranspose (map of_nat [0..<32]) 16 16 (replicate 32 0)
   = Inr (emp_transposed (map of_nat [0..<32]) 16 16)"
  by code_simp

lemma shape_8_8: "shape_ok 8 8"
  by (simp add: shape_ok_def)

text \<open>
  Claim C6 says that transposing twice returns the matrix, for all numbers of rows and
  columns that are multiples of 8, for \<^verbatim>\<open>BitMatrixTranspose\<close> and for
  \<^verbatim>\<open>empBitMatrixTranspose\<close>. On a matrix of 8 rows and 8 columns, whatever its eight bytes,
  \<^verbatim>\<open>empBitMatrixTranspose\<close> passes its \<^verbatim>\<open>assert\<close> and enters the main loop, because
  \<^verbatim>\<open>ROW_NUM - 16\<close> is computed in \<^verbatim>\<open>uint64_t\<close> and wraps around; there it reads
  \<^verbatim>\<open>INPUT(rr + 8, cc)\<close>, the byte \<^verbatim>\<open>input[8]\<close> past the end of the matrix, and has no defined
  result. \<^verbatim>\<open>BitMatrixTranspose\<close>, whose dimensions are \<^verbatim>\<open>int\<close>, returns the transpose of the
  same matrix and, applied to it, the matrix again (lemma \<open>BitMatrixTranspose_twice\<close> has
  this for every matrix of at most \<open>2^31\<close> bits).
\<close>

theorem emp_transpose_8x8_out_of_bounds:
  "empBitMatrixTranspose [a, b, c, d, e, f, g, h] 8 8 (replicate 8 0) = Inl Out_of_bounds
   \<and> (\<exists>M'. BitMatrixTranspose [a, b, c, d, e, f, g, h] 8 8 (replicate 8 0) = Inr M'
          \<and> BitMatrixTranspose M' 8 8 (replicate 8 0) = Inr [a, b, c, d, e, f, g, h])"
  using emp_8x8_fault[of a b c d e f g h "replicate 8 0"]
    BitMatrixTranspose_twice[OF shape_8_8, of "[a, b, c, d, e, f, g, h]" "replicate 8 0"
      "replicate 8 0"]
  by simp

section \<open>Proofs: ALSZ OT extension\<close>

subsection \<open>More than \<open>2^24\<close> rows\<close>

text \<open>
  The extension transposes matrices of 128 rows and \<^verbatim>\<open>EXTEND_LEN\<close> columns. In the tile
  at column \<open>2^24\<close>, \<^verbatim>\<open>OUT(rr, cc + II)\<close> computes \<^verbatim>\<open>(cc + II) * nrows\<close> \<open>= 2^24 * 128 = 2^31\<close>
  in \<^verbatim>\<open>int\<close>.
\<close>

lemma tile_16x8_overflow:
  "\<exists>e. tile_16x8 inp 128 N rr 16777216 st = Inl e"
proof (cases "fold_ub (gather_16x8 inp N rr 16777216) [0..<16] (fst st)")
  case (Inl e)
  then show ?thesis by (simp add: tile_16x8_def)
next
  case (Inr tmp)
  have "scatter_16x8 128 rr 16777216 7 (tmp, snd st) = Inl Signed_overflow"
    by (simp add: scatter_16x8_def OUT_index_def II_def int_ok_def)
  moreover have "rev [0..<8] = [7, 6, 5, 4, 3, 2, 1, 0::nat]" by (simp add: upt_conv_Cons)
  ultimately show ?thesis using Inr by (simp add: tile_16x8_def)
qed

lemma cols_16x8_overflow:
  assumes "16777216 < N" "0 \<le> cc" "cc \<le> 16777216" "cc mod 8 = 0"
  shows "\<exists>e. cols_16x8 inp 128 N rr cc st = Inl e"
  using assms
proof (induction "nat (16777216 - cc)" arbitrary: cc st rule: less_induct)
  case less
  have lt: "cc < N" using less.prems by simp
  show ?case
  proof (cases "tile_16x8 inp 128 N rr cc st")
    case (Inl e)
    then show ?thesis using lt by (subst cols_16x8.simps) simp
  next
    case (Inr st')
    have ne: "cc \<noteq> 16777216" using tile_16x8_overflow[of inp N rr st] Inr by auto
    have c8: "cc + 8 \<le> 16777216" using less.prems ne by presburger
    have ok: "int_ok (cc + 8)" using c8 less.prems by (simp add: int_ok_def)
    have "\<exists>e. cols_16x8 inp 128 N rr (cc + 8) st' = Inl e"
      using less.prems c8 by (intro less.hyps) auto
    then show ?thesis using lt Inr ok by (subst cols_16x8.simps) simp
  qed
qed

lemma BitMatrixTranspose_overflow:
  "\<exists>e. BitMatrixTranspose inp 128 16777344 out = Inl e"
proof -
  obtain e where c: "cols_16x8 inp 128 16777344 0 0 (0, out) = Inl e"
    using cols_16x8_overflow[of 16777344 0 inp 0 "(0, out)"] by auto
  have r: "rows_16 inp 128 16777344 0 (0, out) = Inl e"
    by (subst rows_16.simps) (simp add: c)
  show ?thesis by (simp add: BitMatrixTranspose_def int_ok_def r)
qed

lemma transpose_blocks_overflow:
  "(case transpose_blocks M 128 16777344 of Inl e \<Rightarrow> a | Inr x \<Rightarrow> f x) = a"
proof -
  have s: "size_t_to_int 128 = 128" "size_t_to_int 16777344 = 16777344"
    by (simp_all add: size_t_to_int_def)
  obtain e where "BitMatrixTranspose (blocks_bytes M) 128 16777344
      (blocks_bytes (replicate (16777344 div 128 * 128) zero_block)) = Inl e"
    using BitMatrixTranspose_overflow by blast
  then show ?thesis by (simp add: transpose_blocks_def s)
qed

lemma n16: "(16::nat) = Suc (Suc (Suc (Suc (Suc (Suc (Suc (Suc (Suc (Suc (Suc (Suc (Suc (Suc (Suc (Suc 0)))))))))))))))"
  by simp

lemma prepare_pair_overflow:
  assumes pp: "BASE_LEN pp = 128"
  shows "\<exists>tr. run_pair 16 (PrepareSend prims seed_S pp vec_K0 vec_K1 16777344 contS) []
                 (PrepareReceive prims seed_R pp vec_K sel 16777344 contR) [] []
              = Faulted Undefined_behaviour tr"
  unfolding PrepareSend_def PrepareReceive_def n16
  by (auto simp add: pp Let_def CheckParameters_def ReceiveBlocks_def split_def
        transpose_blocks_overflow
      split: sum.splits)

text \<open>
  Claim C1 says that for every \<^verbatim>\<open>EXTEND_LEN\<close> that is a positive multiple of 128 the
  receiver's output is \<open>m\<^bsub>b[i]\<^esub>[i]\<close>. With \<^verbatim>\<open>EXTEND_LEN\<close> \<open>= 2^24 + 128 = 16777344\<close> and the
  default base length 128, whatever the messages, the selection bits, the seeds and the
  missing routines are, the joint run of \<^verbatim>\<open>Send\<close> and \<^verbatim>\<open>Receive\<close> ends in undefined
  behaviour: at the latest when the sender transposes \<open>Q\<close>, the index arithmetic of
  \<^verbatim>\<open>BitMatrixTranspose\<close> leaves the \<^verbatim>\<open>int\<close> range. No output vector is produced.
\<close>

theorem ote_run_int_overflow:
  "(16777344 :: nat) mod 128 = 0
   \<and> (\<exists>tr. ote_run prims seed_S seed_R \<lparr>malicious = 0, BASE_LEN = 128\<rparr> vec_m0 vec_m1
              vec_receiver_selection_bit 16777344
            = Faulted Undefined_behaviour tr)"
proof -
  have cp: "CheckParameters 16777344 (BASE_LEN \<lparr>malicious = 0, BASE_LEN = 128\<rparr>) k = k"
    for k :: "'r proc"
    by (simp add: CheckParameters_def)
  have "\<exists>tr. ote_run prims seed_S seed_R \<lparr>malicious = 0, BASE_LEN = 128\<rparr> vec_m0 vec_m1
              vec_receiver_selection_bit 16777344
            = Faulted Undefined_behaviour tr"
    unfolding ote_run_def ALSZ_Send_def ALSZ_Receive_def Let_def cp
    by (rule prepare_pair_overflow) simp
  then show ?thesis by simp
qed


end
